theory Spec2Isabelle
  imports Main "HOL-Library.Word"
begin

unbundle bit_operations_syntax

text \<open>
  The Negotiator of package \<^verbatim>\<open>rtcsocks\<close>: its constructor, the four operations
  \<^verbatim>\<open>registerOffer\<close>, \<^verbatim>\<open>nextOffer\<close>, \<^verbatim>\<open>registerAnswer\<close> and
  \<^verbatim>\<open>lookupAnswer\<close>, and the sweeper \<^verbatim>\<open>autoPurge\<close>.  A function that runs under
  \<^verbatim>\<open>mutexAnswers\<close> from its first to its last statement is one function of the
  Negotiator.  \<^verbatim>\<open>registerOffer\<close> and \<^verbatim>\<open>nextOffer\<close> cross a channel operation and
  are cut there, at the points where another goroutine can come in between; a step
  function over configurations puts the goroutines together.
\<close>

section \<open>Data model of the Negotiator\<close>

text \<open>
  The fields of the structs \<^verbatim>\<open>offer\<close> and \<^verbatim>\<open>answer\<close> carry the name of their struct
  (\<open>offer_id\<close> is \<^verbatim>\<open>offer.id\<close>); the locks are not state of the model, they make
  the sections they protect atomic.
  Go's \<^verbatim>\<open>uint64\<close> is a 64-bit word.  A \<^verbatim>\<open>[]byte\<close> is a list of bytes; a slice
  may also be \<^verbatim>\<open>nil\<close>, which the code tests for (\<^verbatim>\<open>answer.body != nil\<close>), so a
  slice-typed value is an option: \<open>None\<close> is \<^verbatim>\<open>nil\<close>, \<open>Some []\<close> the empty,
  non-nil slice.  A \<^verbatim>\<open>time.Time\<close> and a \<^verbatim>\<open>time.Duration\<close> are integers
  (nanoseconds); \<^verbatim>\<open>t.Before(u)\<close> is \<open>t < u\<close>, \<^verbatim>\<open>t.After(u)\<close> is \<open>u < t\<close>,
  \<^verbatim>\<open>t.Add(d)\<close> is \<open>t + d\<close>.
\<close>

type_synonym u64 = "64 word"
type_synonym bytes = "8 word list"
type_synonym slice = "bytes option"
type_synonym time = int

datatype error =
    ErrNotAuthenticated
  | ErrBadGroupID
  | ErrRNGError
  | ErrInvalidOfferID
  | ErrNoOfferAvailable
  | ErrAnswerPending
  | ErrAnswerRepeated
  | ErrNoAccess

record offer =
  offer_id :: u64
  offer_user :: u64
  offer_sdp :: slice

record answer =
  answer_body :: slice
  answer_expiry :: time
  answer_user :: u64

text \<open>
  An unbuffered channel \<^verbatim>\<open>chan *offer\<close> holds no values.  Its state is the queue of
  goroutines parked in a send, each with the value it is sending, in arrival order.  The
  goroutines are named by natural numbers.
\<close>

type_synonym chan = "(nat \<times> offer) list"

record Negotiator =
  maxGroupID :: u64
  offerBins :: "u64 \<rightharpoonup> chan"
  answers :: "u64 \<rightharpoonup> answer"
  ttl :: time

section \<open>Powers of two through floating point\<close>

text \<open>
  The code computes bit masks as \<^verbatim>\<open>uint64(math.Pow(2, float64(e)))\<close>.  For \<open>e < 64\<close>
  the power \<open>2 ^ e\<close> is a \<^verbatim>\<open>float64\<close> and a \<^verbatim>\<open>uint64\<close>, and the result is exact.
  For larger \<open>e\<close> the float (possibly \<^verbatim>\<open>+Inf\<close>) is not a \<^verbatim>\<open>uint64\<close>; the
  conversion then succeeds with a value that the language leaves to the implementation.
  That value is the parameter \<open>ovf\<close> of the model.
\<close>

definition pow2_u64 :: "(u64 \<Rightarrow> u64) \<Rightarrow> u64 \<Rightarrow> u64" where
  "pow2_u64 ovf e = (if unat e < 64 then 2 ^ unat e else ovf e)"

section \<open>NewNegotiator\<close>

text \<open>
  The constructor makes one unbuffered channel for every bin ID from 1 to
  \<^verbatim>\<open>maxBinIdx\<close>.  For a negative \<^verbatim>\<open>maxGroupID\<close> the power is below 1 and converts
  to 0, so \<^verbatim>\<open>maxBinIdx\<close> wraps to the largest \<^verbatim>\<open>uint64\<close> and the loop
  \<^verbatim>\<open>for i = 1; i <= maxBinIdx; i++\<close> never ends: the constructor does not return.
\<close>

definition NewNegotiator :: "(u64 \<Rightarrow> u64) \<Rightarrow> int \<Rightarrow> time \<Rightarrow> Negotiator option" where
  "NewNegotiator ovf maxGroupID_arg ttl_arg =
     (let maxBinIdx =
            (if maxGroupID_arg < 0 then 0 else pow2_u64 ovf (word_of_int maxGroupID_arg)) - 1
      in if maxBinIdx = - 1 then None
         else Some \<lparr>maxGroupID = word_of_int maxGroupID_arg,
                     offerBins = (\<lambda>i. if 1 \<le> i \<and> i \<le> maxBinIdx then Some [] else None),
                     answers = Map.empty,
                     ttl = ttl_arg\<rparr>)"

section \<open>registerAnswer and lookupAnswer\<close>

text \<open>
  Both run entirely under \<^verbatim>\<open>mutexAnswers\<close>, so each is one atomic function of the
  Negotiator.  The rows are reached through pointers held only by the \<^verbatim>\<open>answers\<close>
  map, so writing \<^verbatim>\<open>answer.body\<close> is an update of the map's row.  Go's \<^verbatim>\<open>error\<close>
  result is an option, \<open>None\<close> for \<^verbatim>\<open>nil\<close>.
\<close>

definition registerAnswer :: "Negotiator \<Rightarrow> u64 \<Rightarrow> slice \<Rightarrow> error option \<times> Negotiator" where
  "registerAnswer n offerID sdp =
     (case answers n offerID of
        None \<Rightarrow> (Some ErrInvalidOfferID, n)
      | Some a \<Rightarrow>
          if answer_body a \<noteq> None then (Some ErrAnswerRepeated, n)
          else (None, n\<lparr>answers := (answers n)(offerID \<mapsto> a\<lparr>answer_body := sdp\<rparr>)\<rparr>))"

definition lookupAnswer :: "Negotiator \<Rightarrow> u64 \<Rightarrow> u64 \<Rightarrow> (error + bytes) \<times> Negotiator" where
  "lookupAnswer n user offerID =
     (case answers n offerID of
        None \<Rightarrow> (Inl ErrInvalidOfferID, n)
      | Some a \<Rightarrow>
          if answer_user a \<noteq> user then (Inl ErrNoAccess, n)
          else (case answer_body a of
                  None \<Rightarrow> (Inl ErrAnswerPending, n)
                | Some b \<Rightarrow> (Inr b, n)))"

section \<open>autoPurge\<close>

text \<open>
  One cycle of the sweeper's loop, between \<^verbatim>\<open>mutexAnswers.Lock()\<close> and
  \<^verbatim>\<open>Unlock()\<close>.  The \<^verbatim>\<open>range\<close> over the map visits the rows in an order of
  its own and \<^verbatim>\<open>time.Now()\<close> is read anew at every row, so the cycle is given its
  visits: the offer IDs in the order visited, each with the clock reading taken there.
\<close>

fun purge :: "(u64 \<times> time) list \<Rightarrow> (u64 \<rightharpoonup> answer) \<Rightarrow> (u64 \<rightharpoonup> answer)" where
  "purge [] m = m"
| "purge ((offerID, now) # visits) m =
     purge visits
       (case m offerID of
          None \<Rightarrow> m
        | Some a \<Rightarrow> if answer_expiry a < now then m(offerID := None) else m)"

definition autoPurge_cycle :: "Negotiator \<Rightarrow> (u64 \<times> time) list \<Rightarrow> Negotiator" where
  "autoPurge_cycle n visits = n\<lparr>answers := purge visits (answers n)\<rparr>"

text \<open>The visits of a \<^verbatim>\<open>range\<close> over a map: every key once, in some order.\<close>

definition range_order :: "'k list \<Rightarrow> ('k \<rightharpoonup> 'v) \<Rightarrow> bool" where
  "range_order keys m = (distinct keys \<and> set keys = dom m)"

section \<open>registerOffer\<close>

text \<open>
  The bin ID is the OR of the masks of the listed groups that pass the guard
  \<^verbatim>\<open>groupID <= n.maxGroupID\<close>.  The subtraction \<^verbatim>\<open>groupID-1\<close> is on
  \<^verbatim>\<open>uint64\<close> and wraps at 0.
\<close>

fun calcBinID :: "(u64 \<Rightarrow> u64) \<Rightarrow> u64 \<Rightarrow> u64 list \<Rightarrow> u64 \<Rightarrow> u64" where
  "calcBinID ovf G [] binID = binID"
| "calcBinID ovf G (groupID # groups) binID =
     calcBinID ovf G groups
       (if groupID \<le> G then binID OR pow2_u64 ovf (groupID - 1) else binID)"

text \<open>
  A call of \<^verbatim>\<open>registerOffer\<close> is not atomic: it parks in the channel send until a
  receiver takes the offer, and only then takes \<^verbatim>\<open>mutexAnswers\<close> and stores the
  answer row.  The points where the goroutine can stand are: parked in the send
  (\<open>RO_Send\<close>), past the send and before the store (\<open>RO_Store\<close>), returned
  (\<open>RO_Ret\<close>).
\<close>

datatype registerOffer_pc =
    RO_Send u64 offer
  | RO_Store offer
  | RO_Ret "error + u64"

text \<open>
  From the entry to the send.  \<open>rnd\<close> is the result of \<^verbatim>\<open>rand.Int\<close>, \<open>None\<close> when
  it fails.
\<close>

definition registerOffer_start ::
  "(u64 \<Rightarrow> u64) \<Rightarrow> Negotiator \<Rightarrow> u64 \<Rightarrow> slice \<Rightarrow> u64 list \<Rightarrow> u64 option \<Rightarrow> registerOffer_pc" where
  "registerOffer_start ovf n user sdp groups rnd =
     (let binID = calcBinID ovf (maxGroupID n) groups 0 in
      if binID = 0 then RO_Ret (Inl ErrBadGroupID)
      else (case rnd of
              None \<Rightarrow> RO_Ret (Inl ErrRNGError)
            | Some offerID \<Rightarrow>
                RO_Send binID \<lparr>offer_id = offerID, offer_user = user, offer_sdp = sdp\<rparr>))"

text \<open>From the return of the send to the end, at clock reading \<open>now\<close>.\<close>

definition registerOffer_store :: "Negotiator \<Rightarrow> time \<Rightarrow> offer \<Rightarrow> Negotiator \<times> registerOffer_pc" where
  "registerOffer_store n now off =
     (n\<lparr>answers := (answers n)(offer_id off \<mapsto>
          \<lparr>answer_body = None, answer_expiry = now + ttl n, answer_user = offer_user off\<rparr>)\<rparr>,
      RO_Ret (Inr (offer_id off)))"

section \<open>Channel operations\<close>

text \<open>
  A send on an unbuffered channel parks the sender \<open>g\<close> at the end of the queue.  A bin ID
  that is not a key of \<^verbatim>\<open>offerBins\<close> reads as the \<^verbatim>\<open>nil\<close> channel, where a send
  parks for ever and nothing is recorded.  The receive of \<^verbatim>\<open>nextOffer\<close> stands in
  a \<^verbatim>\<open>select\<close> with a \<^verbatim>\<open>default\<close>: it takes the offer of the first parked
  sender, or finds none.
\<close>

definition chan_send :: "Negotiator \<Rightarrow> u64 \<Rightarrow> nat \<Rightarrow> offer \<Rightarrow> Negotiator" where
  "chan_send n binID g off =
     (case offerBins n binID of
        None \<Rightarrow> n
      | Some q \<Rightarrow> n\<lparr>offerBins := (offerBins n)(binID \<mapsto> q @ [(g, off)])\<rparr>)"

definition chan_try_recv :: "Negotiator \<Rightarrow> u64 \<Rightarrow> ((nat \<times> offer) \<times> Negotiator) option" where
  "chan_try_recv n binID =
     (case offerBins n binID of
        None \<Rightarrow> None
      | Some [] \<Rightarrow> None
      | Some (s # q) \<Rightarrow> Some (s, n\<lparr>offerBins := (offerBins n)(binID \<mapsto> q)\<rparr>))"

section \<open>nextOffer\<close>

text \<open>
  A call of \<^verbatim>\<open>nextOffer\<close> stands either at the \<^verbatim>\<open>select\<close> of the bin at the head
  of the bins still to probe (\<open>NO_Select\<close>), or holds a received offer before taking
  \<^verbatim>\<open>mutexAnswers\<close> (\<open>NO_Check\<close>), or has returned (\<open>NO_Ret\<close>).
\<close>

datatype nextOffer_pc =
    NO_Select "u64 list"
  | NO_Check offer "u64 list"
  | NO_Ret "error + u64 \<times> slice"

text \<open>
  From the entry to the first \<^verbatim>\<open>select\<close>; \<open>keys\<close> is the order in which the
  \<^verbatim>\<open>range\<close> over \<^verbatim>\<open>offerBins\<close> yields the bin IDs.
\<close>

definition nextOffer_start :: "(u64 \<Rightarrow> u64) \<Rightarrow> u64 \<Rightarrow> u64 list \<Rightarrow> nextOffer_pc" where
  "nextOffer_start ovf grp keys =
     (let binaryGroupID = pow2_u64 ovf (grp - 1) in
      NO_Select (filter (\<lambda>binID. binaryGroupID AND binID > 0) keys))"

text \<open>The check of a received offer against the answer table, at clock reading \<open>now\<close>.\<close>

definition nextOffer_check :: "Negotiator \<Rightarrow> time \<Rightarrow> offer \<Rightarrow> u64 list \<Rightarrow> nextOffer_pc" where
  "nextOffer_check n now offerObj binIDs =
     (case answers n (offer_id offerObj) of
        None \<Rightarrow> NO_Select binIDs
      | Some a \<Rightarrow>
          if answer_expiry a < now then NO_Select binIDs
          else NO_Ret (Inr (offer_id offerObj, offer_sdp offerObj)))"

section \<open>The goroutines together\<close>

text \<open>
  A configuration is the Negotiator and the calls of \<^verbatim>\<open>registerOffer\<close> and
  \<^verbatim>\<open>nextOffer\<close> in flight.  An event is one atomic action of one goroutine: a
  channel operation, or a section under \<^verbatim>\<open>mutexAnswers\<close>.
\<close>

record config =
  neg :: Negotiator
  regOffers :: "nat \<rightharpoonup> registerOffer_pc"
  nextOffers :: "nat \<rightharpoonup> nextOffer_pc"

datatype event =
    GoRegisterOffer nat u64 slice "u64 list" "u64 option"
  | GoNextOffer nat u64 "u64 list"
  | Select nat
  | Check nat time
  | Store nat time
  | RegisterAnswer u64 slice
  | LookupAnswer u64 u64
  | AutoPurge "(u64 \<times> time) list"

fun step :: "(u64 \<Rightarrow> u64) \<Rightarrow> event \<Rightarrow> config \<Rightarrow> config option" where
  "step ovf (GoRegisterOffer p user sdp groups rnd) c =
     (if regOffers c p \<noteq> None then None
      else (case registerOffer_start ovf (neg c) user sdp groups rnd of
              RO_Send binID off \<Rightarrow>
                Some (c\<lparr>neg := chan_send (neg c) binID p off,
                        regOffers := (regOffers c)(p \<mapsto> RO_Send binID off)\<rparr>)
            | RO_Store off \<Rightarrow> None
            | RO_Ret r \<Rightarrow> Some (c\<lparr>regOffers := (regOffers c)(p \<mapsto> RO_Ret r)\<rparr>)))"
| "step ovf (GoNextOffer q grp keys) c =
     (if nextOffers c q \<noteq> None then None
      else Some (c\<lparr>nextOffers := (nextOffers c)(q \<mapsto> nextOffer_start ovf grp keys)\<rparr>))"
| "step ovf (Select q) c =
     (case nextOffers c q of
        Some (NO_Select []) \<Rightarrow>
          Some (c\<lparr>nextOffers := (nextOffers c)(q \<mapsto> NO_Ret (Inl ErrNoOfferAvailable))\<rparr>)
      | Some (NO_Select (binID # binIDs)) \<Rightarrow>
          (case chan_try_recv (neg c) binID of
             None \<Rightarrow> Some (c\<lparr>nextOffers := (nextOffers c)(q \<mapsto> NO_Select binIDs)\<rparr>)
           | Some ((p, off), n') \<Rightarrow>
               Some (c\<lparr>neg := n',
                       regOffers := (regOffers c)(p \<mapsto> RO_Store off),
                       nextOffers := (nextOffers c)(q \<mapsto> NO_Check off (binID # binIDs))\<rparr>))
      | _ \<Rightarrow> None)"
| "step ovf (Check q now) c =
     (case nextOffers c q of
        Some (NO_Check off binIDs) \<Rightarrow>
          Some (c\<lparr>nextOffers := (nextOffers c)(q \<mapsto> nextOffer_check (neg c) now off binIDs)\<rparr>)
      | _ \<Rightarrow> None)"
| "step ovf (Store p now) c =
     (case regOffers c p of
        Some (RO_Store off) \<Rightarrow>
          Some (c\<lparr>neg := fst (registerOffer_store (neg c) now off),
                  regOffers := (regOffers c)(p \<mapsto> snd (registerOffer_store (neg c) now off))\<rparr>)
      | _ \<Rightarrow> None)"
| "step ovf (RegisterAnswer offerID sdp) c =
     Some (c\<lparr>neg := snd (registerAnswer (neg c) offerID sdp)\<rparr>)"
| "step ovf (LookupAnswer user offerID) c =
     Some (c\<lparr>neg := snd (lookupAnswer (neg c) user offerID)\<rparr>)"
| "step ovf (AutoPurge visits) c =
     Some (c\<lparr>neg := autoPurge_cycle (neg c) visits\<rparr>)"

fun run :: "(u64 \<Rightarrow> u64) \<Rightarrow> event list \<Rightarrow> config \<Rightarrow> config option" where
  "run ovf [] c = Some c"
| "run ovf (e # es) c = (case step ovf e c of None \<Rightarrow> None | Some c' \<Rightarrow> run ovf es c')"

section \<open>Example states\<close>

text \<open>The Negotiator built for three groups with a TTL of 10, and a table with one more row.\<close>

definition example_negotiator :: Negotiator where
  "example_negotiator =
     \<lparr>maxGroupID = 3,
      offerBins = (\<lambda>i. if 1 \<le> i \<and> i \<le> 7 then Some [] else None),
      answers = Map.empty,
      ttl = 10\<rparr>"

definition with_row :: "Negotiator \<Rightarrow> u64 \<Rightarrow> answer \<Rightarrow> Negotiator" where
  "with_row n offerID a = n\<lparr>answers := (answers n)(offerID \<mapsto> a)\<rparr>"

definition pending_row :: answer where
  "pending_row = \<lparr>answer_body = None, answer_expiry = 10, answer_user = 42\<rparr>"

definition answered_row :: answer where
  "answered_row = \<lparr>answer_body = Some [0xAA], answer_expiry = 10, answer_user = 42\<rparr>"

section \<open>Runs and their invariant\<close>

text \<open>
  A run starts from a Negotiator with no call in flight.  The invariant of all runs ties
  the queues of the channels to the goroutines parked in them and to the events that
  started them: a parked sender stands in the send of the bin whose queue holds it, its
  offer and bin are those its \<^verbatim>\<open>registerOffer\<close> call computed, and a call of
  \<^verbatim>\<open>nextOffer\<close> probes and holds only what the mask of its group selects.
\<close>

definition boot :: "Negotiator \<Rightarrow> config" where
  "boot n = \<lparr>neg = n, regOffers = Map.empty, nextOffers = Map.empty\<rparr>"

definition registered :: "(u64 \<Rightarrow> u64) \<Rightarrow> u64 \<Rightarrow> event list \<Rightarrow> u64 \<Rightarrow> nat \<Rightarrow> offer \<Rightarrow> bool" where
  "registered ovf G evs B p off \<longleftrightarrow>
     (\<exists>groups. GoRegisterOffer p (offer_user off) (offer_sdp off) groups (Some (offer_id off)) \<in> set evs \<and>
        calcBinID ovf G groups 0 = B)"

definition eligible :: "(u64 \<Rightarrow> u64) \<Rightarrow> u64 \<Rightarrow> u64 \<Rightarrow> bool" where
  "eligible ovf grp binID \<longleftrightarrow> pow2_u64 ovf (grp - 1) AND binID > 0"

fun pc_ok :: "(u64 \<Rightarrow> u64) \<Rightarrow> u64 \<Rightarrow> u64 set \<Rightarrow> event list \<Rightarrow> u64 \<Rightarrow> nextOffer_pc \<Rightarrow> bool" where
  "pc_ok ovf G D evs grp (NO_Select bs) \<longleftrightarrow> (\<forall>b\<in>set bs. eligible ovf grp b)"
| "pc_ok ovf G D evs grp (NO_Check off bs) \<longleftrightarrow>
     (\<forall>b\<in>set bs. eligible ovf grp b) \<and> bs \<noteq> [] \<and> hd bs \<in> D \<and>
     (\<exists>p. registered ovf G evs (hd bs) p off)"
| "pc_ok ovf G D evs grp (NO_Ret (Inl e)) \<longleftrightarrow> True"
| "pc_ok ovf G D evs grp (NO_Ret (Inr r)) \<longleftrightarrow>
     (\<exists>B p off. eligible ovf grp B \<and> B \<in> D \<and> registered ovf G evs B p off \<and>
        r = (offer_id off, offer_sdp off))"

definition sys_inv :: "(u64 \<Rightarrow> u64) \<Rightarrow> u64 \<Rightarrow> u64 set \<Rightarrow> event list \<Rightarrow> config \<Rightarrow> bool" where
  "sys_inv ovf G D evs c \<longleftrightarrow>
     maxGroupID (neg c) = G \<and>
     dom (offerBins (neg c)) = D \<and>
     (\<forall>B qu. offerBins (neg c) B = Some qu \<longrightarrow> distinct (map fst qu)) \<and>
     (\<forall>B qu p off. offerBins (neg c) B = Some qu \<and> (p, off) \<in> set qu \<longrightarrow>
        regOffers c p = Some (RO_Send B off)) \<and>
     (\<forall>p B off. regOffers c p = Some (RO_Send B off) \<longrightarrow> registered ovf G evs B p off) \<and>
     (\<forall>p user sdp groups rnd. GoRegisterOffer p user sdp groups rnd \<in> set evs \<longrightarrow> regOffers c p \<noteq> None) \<and>
     (\<forall>q pc. nextOffers c q = Some pc \<longrightarrow> (\<exists>grp keys. GoNextOffer q grp keys \<in> set evs)) \<and>
     (\<forall>q grp keys. GoNextOffer q grp keys \<in> set evs \<longrightarrow>
        (\<exists>pc. nextOffers c q = Some pc \<and> pc_ok ovf G D evs grp pc))"

text \<open>The events that start a goroutine.\<close>

definition starts :: "event \<Rightarrow> bool" where
  "starts e = (case e of GoRegisterOffer p user sdp groups rnd \<Rightarrow> True
                       | GoNextOffer q grp keys \<Rightarrow> True | _ \<Rightarrow> False)"

definition example_config :: config where
  "example_config = boot example_negotiator"

text \<open>
  One choice an implementation can make for the out-of-range conversion: the most
  significant bit alone.
\<close>

definition example_ovf :: "u64 \<Rightarrow> u64" where
  "example_ovf e = 0x8000000000000000"

definition example_offer :: offer where
  "example_offer = \<lparr>offer_id = 7, offer_user = 42, offer_sdp = Some [1]\<rparr>"

text \<open>A call of \<^verbatim>\<open>nextOffer\<close> for group 1 that holds the offer it received from bin 1.\<close>

definition checking_config :: config where
  "checking_config =
     \<lparr>neg = example_negotiator,
      regOffers = [0 \<mapsto> RO_Store example_offer],
      nextOffers = [0 \<mapsto> NO_Check example_offer [1, 3, 5, 7]]\<rparr>"

section \<open>The constructor\<close>

lemma NewNegotiator_example: "NewNegotiator ovf 3 10 = Some example_negotiator"
  by (simp add: NewNegotiator_def pow2_u64_def example_negotiator_def Let_def)

section \<open>lookupAnswer\<close>

text \<open>
  C4.  \<^verbatim>\<open>lookupAnswer\<close> fails with \<^verbatim>\<open>ErrInvalidOfferID\<close> when the table has no row
  for the offer ID, with \<^verbatim>\<open>ErrNoAccess\<close> when the caller is not the row's user, whether
  or not the body is there, with \<^verbatim>\<open>ErrAnswerPending\<close> when the body is absent, and
  otherwise returns the body.  It leaves the Negotiator as it was, so the row stays and a
  repeated lookup returns the same.
\<close>

theorem lookupAnswer_cases:
  "(answers n offerID = None \<longrightarrow> lookupAnswer n user offerID = (Inl ErrInvalidOfferID, n)) \<and>
   (\<forall>a. answers n offerID = Some a \<and> answer_user a \<noteq> user \<longrightarrow>
        lookupAnswer n user offerID = (Inl ErrNoAccess, n)) \<and>
   (\<forall>a. answers n offerID = Some a \<and> answer_user a = user \<and> answer_body a = None \<longrightarrow>
        lookupAnswer n user offerID = (Inl ErrAnswerPending, n)) \<and>
   (\<forall>a b. answers n offerID = Some a \<and> answer_user a = user \<and> answer_body a = Some b \<longrightarrow>
        lookupAnswer n user offerID = (Inr b, n)) \<and>
   lookupAnswer (snd (lookupAnswer n user offerID)) user offerID = lookupAnswer n user offerID"
  by (auto simp: lookupAnswer_def split: option.splits)

theorem lookupAnswer_cases_witness:
  "lookupAnswer example_negotiator 42 7 = (Inl ErrInvalidOfferID, example_negotiator) \<and>
   lookupAnswer (with_row example_negotiator 7 answered_row) 43 7
     = (Inl ErrNoAccess, with_row example_negotiator 7 answered_row) \<and>
   lookupAnswer (with_row example_negotiator 7 pending_row) 43 7
     = (Inl ErrNoAccess, with_row example_negotiator 7 pending_row) \<and>
   lookupAnswer (with_row example_negotiator 7 pending_row) 42 7
     = (Inl ErrAnswerPending, with_row example_negotiator 7 pending_row) \<and>
   lookupAnswer (with_row example_negotiator 7 answered_row) 42 7
     = (Inr [0xAA], with_row example_negotiator 7 answered_row)"
  using lookupAnswer_cases [of example_negotiator 7 42]
    lookupAnswer_cases [of "with_row example_negotiator 7 answered_row" 7 43]
    lookupAnswer_cases [of "with_row example_negotiator 7 pending_row" 7 43]
    lookupAnswer_cases [of "with_row example_negotiator 7 pending_row" 7 42]
    lookupAnswer_cases [of "with_row example_negotiator 7 answered_row" 7 42]
  by (simp add: with_row_def example_negotiator_def pending_row_def answered_row_def)

section \<open>registerAnswer\<close>

lemma registerAnswer_cases:
  "(answers n offerID = None \<longrightarrow> registerAnswer n offerID sdp = (Some ErrInvalidOfferID, n)) \<and>
   (\<forall>a. answers n offerID = Some a \<and> answer_body a \<noteq> None \<longrightarrow>
        registerAnswer n offerID sdp = (Some ErrAnswerRepeated, n)) \<and>
   (\<forall>a. answers n offerID = Some a \<and> answer_body a = None \<longrightarrow>
        registerAnswer n offerID sdp =
          (None, n\<lparr>answers := (answers n)(offerID \<mapsto> a\<lparr>answer_body := sdp\<rparr>)\<rparr>))"
  by (auto simp: registerAnswer_def split: option.splits)

lemma registerAnswer_once:
  assumes "answers n offerID = Some a" and "answer_body a = None"
  shows "fst (registerAnswer n offerID (Some b)) = None"
    and "answers (snd (registerAnswer n offerID (Some b))) offerID = Some (a\<lparr>answer_body := Some b\<rparr>)"
    and "fst (registerAnswer (snd (registerAnswer n offerID (Some b))) offerID sdp) = Some ErrAnswerRepeated"
    and "snd (registerAnswer (snd (registerAnswer n offerID (Some b))) offerID sdp)
           = snd (registerAnswer n offerID (Some b))"
  using assms by (simp_all add: registerAnswer_def)

text \<open>
  C10.  When the row exists and its body is absent, \<^verbatim>\<open>registerAnswer\<close> with a
  \<^verbatim>\<open>nil\<close> SDP returns success and changes nothing: the body is still absent, a lookup
  by the row's user still fails with \<^verbatim>\<open>ErrAnswerPending\<close>, and a later
  \<^verbatim>\<open>registerAnswer\<close> for the same offer ID, with any SDP, succeeds.
\<close>

theorem registerAnswer_nil_body:
  assumes "answers n offerID = Some a" and "answer_body a = None"
  shows "registerAnswer n offerID None = (None, n) \<and>
         answers (snd (registerAnswer n offerID None)) offerID = Some a \<and>
         fst (lookupAnswer (snd (registerAnswer n offerID None)) (answer_user a) offerID)
           = Inl ErrAnswerPending \<and>
         fst (registerAnswer (snd (registerAnswer n offerID None)) offerID sdp) = None"
proof -
  have "a\<lparr>answer_body := None\<rparr> = a"
    using assms(2) by simp
  then have "(answers n)(offerID \<mapsto> a\<lparr>answer_body := None\<rparr>) = answers n"
    using assms(1) by (simp add: map_upd_triv)
  then have same: "registerAnswer n offerID None = (None, n)"
    using assms by (simp add: registerAnswer_def)
  show ?thesis
    using assms by (simp add: same) (simp add: lookupAnswer_def registerAnswer_def)
qed

theorem registerAnswer_nil_body_witness:
  "registerAnswer (with_row example_negotiator 7 pending_row) 7 None
     = (None, with_row example_negotiator 7 pending_row) \<and>
   fst (lookupAnswer (with_row example_negotiator 7 pending_row) 42 7) = Inl ErrAnswerPending \<and>
   fst (registerAnswer (with_row example_negotiator 7 pending_row) 7 (Some [0xBB])) = None"
proof -
  have row: "answers (with_row example_negotiator 7 pending_row) 7 = Some pending_row"
    by (simp add: with_row_def)
  have absent: "answer_body pending_row = None"
    by (simp add: pending_row_def)
  have user: "answer_user pending_row = 42"
    by (simp add: pending_row_def)
  show ?thesis
    using registerAnswer_nil_body [OF row absent, of "Some [0xBB]"]
    by (clarsimp simp: user)
qed

section \<open>The sweeper\<close>

lemma purge_lookup:
  "purge visits m k =
     (case m k of
        None \<Rightarrow> None
      | Some a \<Rightarrow> if \<exists>now. (k, now) \<in> set visits \<and> answer_expiry a < now then None else Some a)"
proof (induction visits arbitrary: m)
  case Nil
  then show ?case by (simp split: option.splits)
next
  case (Cons v visits)
  obtain offerID now where v: "v = (offerID, now)" by (cases v)
  show ?case
    unfolding v by (auto simp: Cons.IH split: option.splits)
qed

text \<open>
  C8.  A cycle of the sweeper inspects every row of the table once.  A row whose expiry is
  earlier than the clock reading at its inspection is removed; every other row stays as it
  was, no row appears, and nothing else of the Negotiator changes.
\<close>

theorem autoPurge_cycle_exact:
  assumes "range_order (map fst visits) (answers n)"
  shows "(\<forall>k a. answers n k = Some a \<longrightarrow> (\<exists>!now. (k, now) \<in> set visits)) \<and>
         (\<forall>k a now. answers n k = Some a \<and> (k, now) \<in> set visits \<longrightarrow>
            answers (autoPurge_cycle n visits) k = (if answer_expiry a < now then None else Some a)) \<and>
         (\<forall>k. answers n k = None \<longrightarrow> answers (autoPurge_cycle n visits) k = None) \<and>
         offerBins (autoPurge_cycle n visits) = offerBins n \<and>
         maxGroupID (autoPurge_cycle n visits) = maxGroupID n \<and>
         ttl (autoPurge_cycle n visits) = ttl n"
proof -
  have d: "distinct (map fst visits)" and s: "fst ` set visits = dom (answers n)"
    using assms by (simp_all add: range_order_def)
  have uniq: "t = t'" if "(k, t) \<in> set visits" "(k, t') \<in> set visits" for k t t'
    using d that by (rule eq_key_imp_eq_value)
  have ex: "\<exists>now. (k, now) \<in> set visits" if "answers n k = Some a" for k a
  proof -
    from that have "k \<in> fst ` set visits" using s by auto
    then show ?thesis by force
  qed
  have one: "\<exists>!now. (k, now) \<in> set visits" if "answers n k = Some a" for k a
    using ex [OF that] uniq by blast
  have rem: "answers (autoPurge_cycle n visits) k = (if answer_expiry a < now then None else Some a)"
    if "answers n k = Some a" "(k, now) \<in> set visits" for k a now
  proof -
    have "(\<exists>t. (k, t) \<in> set visits \<and> answer_expiry a < t) \<longleftrightarrow> answer_expiry a < now"
      using that(2) uniq by blast
    then show ?thesis
      using that(1) by (simp add: autoPurge_cycle_def purge_lookup)
  qed
  have none: "answers (autoPurge_cycle n visits) k = None" if "answers n k = None" for k
    using that by (simp add: autoPurge_cycle_def purge_lookup)
  show ?thesis
    using one rem none by (simp add: autoPurge_cycle_def)
qed

theorem autoPurge_cycle_exact_witness:
  "range_order (map fst [(8 :: u64, 11 :: time), (7, 10)])
     (answers (with_row (with_row example_negotiator 7 pending_row) 8 answered_row)) \<and>
   answers (autoPurge_cycle (with_row (with_row example_negotiator 7 pending_row) 8 answered_row)
              [(8, 11), (7, 10)]) 8 = None \<and>
   answers (autoPurge_cycle (with_row (with_row example_negotiator 7 pending_row) 8 answered_row)
              [(8, 11), (7, 10)]) 7 = Some pending_row \<and>
   answers (autoPurge_cycle (with_row (with_row example_negotiator 7 pending_row) 8 answered_row)
              [(8, 11), (7, 10)]) 9 = None"
proof -
  have h: "range_order (map fst [(8 :: u64, 11 :: time), (7, 10)])
     (answers (with_row (with_row example_negotiator 7 pending_row) 8 answered_row))"
    by (auto simp: range_order_def with_row_def example_negotiator_def)
  show ?thesis
    using h autoPurge_cycle_exact [OF h]
    by (simp add: with_row_def example_negotiator_def pending_row_def answered_row_def)
qed

section \<open>Preservation of the invariant\<close>

lemma registerAnswer_frame:
  "maxGroupID (snd (registerAnswer n offerID sdp)) = maxGroupID n \<and>
   offerBins (snd (registerAnswer n offerID sdp)) = offerBins n \<and>
   ttl (snd (registerAnswer n offerID sdp)) = ttl n"
  by (simp add: registerAnswer_def split: option.splits)

lemma lookupAnswer_frame: "snd (lookupAnswer n user offerID) = n"
  by (simp add: lookupAnswer_def split: option.splits)

lemma step_dom:
  assumes "step ovf e c = Some c'"
  shows "dom (offerBins (neg c')) = dom (offerBins (neg c))"
proof (cases e)
  case (GoRegisterOffer p user sdp groups rnd)
  then show ?thesis using assms
    by (auto simp: chan_send_def split: if_splits registerOffer_pc.splits option.splits)
next
  case (Select q)
  then show ?thesis using assms
    by (auto simp: chan_try_recv_def split: option.splits nextOffer_pc.splits list.splits if_splits)
next
  case (Store p now)
  then show ?thesis using assms
    by (auto simp: registerOffer_store_def split: option.splits registerOffer_pc.splits)
next
  case (RegisterAnswer offerID sdp)
  then show ?thesis using assms by (auto simp: registerAnswer_frame)
next
  case (LookupAnswer user offerID)
  then show ?thesis using assms by (auto simp: lookupAnswer_frame)
next
  case (AutoPurge visits)
  then show ?thesis using assms by (auto simp: autoPurge_cycle_def)
qed (use assms in \<open>auto split: if_splits option.splits nextOffer_pc.splits\<close>)

lemma run_dom:
  assumes "run ovf evs c = Some c'"
  shows "dom (offerBins (neg c')) = dom (offerBins (neg c))"
  using assms
proof (induction evs arbitrary: c)
  case Nil
  then show ?case by simp
next
  case (Cons e evs)
  then obtain c1 where "step ovf e c = Some c1" "run ovf evs c1 = Some c'"
    by (auto split: option.splits)
  then show ?case using Cons.IH step_dom by metis
qed

lemma registered_mono: "registered ovf G evs B p off \<Longrightarrow> registered ovf G (evs @ [e]) B p off"
  by (auto simp: registered_def)

lemma pc_ok_mono: "pc_ok ovf G D evs grp pc \<Longrightarrow> pc_ok ovf G D (evs @ [e]) grp pc"
  by (induction ovf G D evs grp pc rule: pc_ok.induct) (auto intro: registered_mono)

lemma start_Send:
  assumes "registerOffer_start ovf n user sdp groups rnd = RO_Send B off"
  shows "calcBinID ovf (maxGroupID n) groups 0 = B" "rnd = Some (offer_id off)"
    "offer_user off = user" "offer_sdp off = sdp"
  using assms by (auto simp: registerOffer_start_def Let_def split: if_splits option.splits)

lemma start_not_Store: "registerOffer_start ovf n user sdp groups rnd \<noteq> RO_Store off"
  by (auto simp: registerOffer_start_def Let_def split: if_splits option.splits)

lemma inv_boot:
  assumes "NewNegotiator ovf G0 t = Some n"
  shows "sys_inv ovf (maxGroupID n) (dom (offerBins n)) [] (boot n)"
  using assms by (auto simp: sys_inv_def boot_def NewNegotiator_def Let_def split: if_splits)

lemma invI:
  assumes "maxGroupID (neg c) = G"
    and "dom (offerBins (neg c)) = D"
    and "\<And>B qu. offerBins (neg c) B = Some qu \<Longrightarrow> distinct (map fst qu)"
    and "\<And>B qu p off. offerBins (neg c) B = Some qu \<Longrightarrow> (p, off) \<in> set qu \<Longrightarrow>
           regOffers c p = Some (RO_Send B off)"
    and "\<And>p B off. regOffers c p = Some (RO_Send B off) \<Longrightarrow> registered ovf G evs B p off"
    and "\<And>p user sdp groups rnd. GoRegisterOffer p user sdp groups rnd \<in> set evs \<Longrightarrow>
           regOffers c p \<noteq> None"
    and "\<And>q pc. nextOffers c q = Some pc \<Longrightarrow> \<exists>grp keys. GoNextOffer q grp keys \<in> set evs"
    and "\<And>q grp keys. GoNextOffer q grp keys \<in> set evs \<Longrightarrow>
           \<exists>pc. nextOffers c q = Some pc \<and> pc_ok ovf G D evs grp pc"
  shows "sys_inv ovf G D evs c"
  unfolding sys_inv_def using assms by blast

lemma inv_G: "sys_inv ovf G D evs c \<Longrightarrow> maxGroupID (neg c) = G"
  by (simp add: sys_inv_def)

lemma inv_dom: "sys_inv ovf G D evs c \<Longrightarrow> dom (offerBins (neg c)) = D"
  by (simp add: sys_inv_def)

lemma inv_distinct: "sys_inv ovf G D evs c \<Longrightarrow> offerBins (neg c) B = Some qu \<Longrightarrow> distinct (map fst qu)"
  unfolding sys_inv_def by blast

lemma inv_parked:
  "sys_inv ovf G D evs c \<Longrightarrow> offerBins (neg c) B = Some qu \<Longrightarrow> (p, off) \<in> set qu \<Longrightarrow>
     regOffers c p = Some (RO_Send B off)"
  unfolding sys_inv_def by blast

lemma inv_registered:
  "sys_inv ovf G D evs c \<Longrightarrow> regOffers c p = Some (RO_Send B off) \<Longrightarrow> registered ovf G evs B p off"
  unfolding sys_inv_def by blast

lemma inv_spawned_reg:
  "sys_inv ovf G D evs c \<Longrightarrow> GoRegisterOffer p user sdp groups rnd \<in> set evs \<Longrightarrow> regOffers c p \<noteq> None"
  unfolding sys_inv_def by blast

lemma inv_has_spawn:
  "sys_inv ovf G D evs c \<Longrightarrow> nextOffers c q = Some pc \<Longrightarrow> \<exists>grp keys. GoNextOffer q grp keys \<in> set evs"
  unfolding sys_inv_def by blast

lemma inv_pc_ok:
  "sys_inv ovf G D evs c \<Longrightarrow> GoNextOffer q grp keys \<in> set evs \<Longrightarrow>
     \<exists>pc. nextOffers c q = Some pc \<and> pc_ok ovf G D evs grp pc"
  unfolding sys_inv_def by blast

lemma inv_GoRegisterOffer:
  assumes i: "sys_inv ovf G D evs c" and s: "step ovf (GoRegisterOffer p user sdp groups rnd) c = Some c'"
  shows "sys_inv ovf G D (evs @ [GoRegisterOffer p user sdp groups rnd]) c'"
proof -
  let ?e = "GoRegisterOffer p user sdp groups rnd"
  let ?pc = "registerOffer_start ovf (neg c) user sdp groups rnd"
  from s have fresh: "regOffers c p = None"
    by (simp split: if_splits)
  have noentry: "(p, off) \<notin> set qu" if "offerBins (neg c) B = Some qu" for B qu off
    using inv_parked [OF i that] fresh by auto
  have G: "maxGroupID (neg c) = G" using i by (rule inv_G)
  have reg': "regOffers c' = (regOffers c)(p \<mapsto> ?pc)"
    using s fresh by (cases ?pc) (auto simp: start_not_Store)
  have next': "nextOffers c' = nextOffers c"
    using s fresh by (cases ?pc) auto
  have G': "maxGroupID (neg c') = G"
    using s fresh G by (cases ?pc) (auto simp: chan_send_def split: option.splits)
  have bins': "offerBins (neg c') B = Some qu' \<Longrightarrow>
      (offerBins (neg c) B = Some qu') \<or>
      (\<exists>qu off. ?pc = RO_Send B off \<and> offerBins (neg c) B = Some qu \<and> qu' = qu @ [(p, off)])" for B qu'
    using s fresh by (cases ?pc) (auto simp: chan_send_def split: option.splits if_splits)
  show ?thesis
  proof (rule invI)
    show "dom (offerBins (neg c')) = D"
      using step_dom [OF s] inv_dom [OF i] by simp
  next
    show "maxGroupID (neg c') = G" by (rule G')
  next
    fix B qu' assume a: "offerBins (neg c') B = Some qu'"
    from bins' [OF a] show "distinct (map fst qu')"
    proof
      assume "offerBins (neg c) B = Some qu'"
      then show ?thesis by (rule inv_distinct [OF i])
    next
      assume "\<exists>qu off. ?pc = RO_Send B off \<and> offerBins (neg c) B = Some qu \<and> qu' = qu @ [(p, off)]"
      then obtain qu off where q: "offerBins (neg c) B = Some qu" "qu' = qu @ [(p, off)]" by blast
      have "p \<notin> fst ` set qu" using noentry [OF q(1)] by force
      then show ?thesis using inv_distinct [OF i q(1)] q(2) by simp
    qed
  next
    fix B qu' p' off' assume a: "offerBins (neg c') B = Some qu'" and m: "(p', off') \<in> set qu'"
    from bins' [OF a] show "regOffers c' p' = Some (RO_Send B off')"
    proof
      assume b: "offerBins (neg c) B = Some qu'"
      then have "regOffers c p' = Some (RO_Send B off')" using m by (rule inv_parked [OF i])
      moreover have "p' \<noteq> p" using noentry [OF b] m by auto
      ultimately show ?thesis by (simp add: reg')
    next
      assume "\<exists>qu off. ?pc = RO_Send B off \<and> offerBins (neg c) B = Some qu \<and> qu' = qu @ [(p, off)]"
      then obtain qu off where q: "?pc = RO_Send B off" "offerBins (neg c) B = Some qu" "qu' = qu @ [(p, off)]"
        by blast
      show ?thesis
      proof (cases "(p', off') \<in> set qu")
        case True
        then have "regOffers c p' = Some (RO_Send B off')" by (rule inv_parked [OF i q(2)])
        moreover have "p' \<noteq> p" using noentry [OF q(2)] True by auto
        ultimately show ?thesis by (simp add: reg')
      next
        case False
        then have "p' = p" "off' = off" using m q(3) by auto
        then show ?thesis by (simp add: reg' q(1))
      qed
    qed
  next
    fix p' B off assume a: "regOffers c' p' = Some (RO_Send B off)"
    show "registered ovf G (evs @ [?e]) B p' off"
    proof (cases "p' = p")
      case True
      then have "?pc = RO_Send B off" using a by (simp add: reg')
      from start_Send [OF this] show ?thesis
        unfolding registered_def using G True by auto
    next
      case False
      then have "regOffers c p' = Some (RO_Send B off)" using a by (simp add: reg')
      then show ?thesis by (intro registered_mono inv_registered [OF i])
    qed
  next
    fix p' user' sdp' groups' rnd'
    assume "GoRegisterOffer p' user' sdp' groups' rnd' \<in> set (evs @ [?e])"
    then have "p' = p \<or> GoRegisterOffer p' user' sdp' groups' rnd' \<in> set evs" by auto
    then show "regOffers c' p' \<noteq> None"
      using inv_spawned_reg [OF i] by (auto simp: reg')
  next
    fix q pc assume "nextOffers c' q = Some pc"
    then show "\<exists>grp keys. GoNextOffer q grp keys \<in> set (evs @ [?e])"
      using inv_has_spawn [OF i] by (auto simp: next')
  next
    fix q grp keys assume "GoNextOffer q grp keys \<in> set (evs @ [?e])"
    then have "GoNextOffer q grp keys \<in> set evs" by simp
    from inv_pc_ok [OF i this] show "\<exists>pc. nextOffers c' q = Some pc \<and> pc_ok ovf G D (evs @ [?e]) grp pc"
      by (auto simp: next' intro: pc_ok_mono)
  qed
qed

lemma inv_GoNextOffer:
  assumes i: "sys_inv ovf G D evs c" and s: "step ovf (GoNextOffer q grp keys) c = Some c'"
  shows "sys_inv ovf G D (evs @ [GoNextOffer q grp keys]) c'"
proof -
  let ?e = "GoNextOffer q grp keys"
  from s have fresh: "nextOffers c q = None"
    by (simp split: if_splits)
  have c': "c' = c\<lparr>nextOffers := (nextOffers c)(q \<mapsto> nextOffer_start ovf grp keys)\<rparr>"
    using s fresh by simp
  have nospawn: "GoNextOffer q grp' keys' \<notin> set evs" for grp' keys'
    using inv_pc_ok [OF i, of q grp' keys'] fresh by auto
  have ok: "pc_ok ovf G D (evs @ [?e]) grp (nextOffer_start ovf grp keys)"
    by (simp add: nextOffer_start_def Let_def eligible_def)
  show ?thesis
  proof (rule invI)
    show "dom (offerBins (neg c')) = D"
      using step_dom [OF s] inv_dom [OF i] by simp
  next
    show "maxGroupID (neg c') = G" using inv_G [OF i] by (simp add: c')
  next
    fix B qu assume "offerBins (neg c') B = Some qu"
    then show "distinct (map fst qu)" using inv_distinct [OF i] by (simp add: c')
  next
    fix B qu p off assume "offerBins (neg c') B = Some qu" "(p, off) \<in> set qu"
    then show "regOffers c' p = Some (RO_Send B off)" using inv_parked [OF i] by (simp add: c')
  next
    fix p B off assume "regOffers c' p = Some (RO_Send B off)"
    then show "registered ovf G (evs @ [?e]) B p off"
      using inv_registered [OF i] by (auto simp: c' intro: registered_mono)
  next
    fix p user sdp groups rnd
    assume "GoRegisterOffer p user sdp groups rnd \<in> set (evs @ [?e])"
    then show "regOffers c' p \<noteq> None" using inv_spawned_reg [OF i] by (auto simp: c')
  next
    fix q' pc assume "nextOffers c' q' = Some pc"
    then show "\<exists>grp keys. GoNextOffer q' grp keys \<in> set (evs @ [?e])"
      using inv_has_spawn [OF i, of q'] by (cases "q' = q") (auto simp: c')
  next
    fix q' grp' keys' assume a: "GoNextOffer q' grp' keys' \<in> set (evs @ [?e])"
    show "\<exists>pc. nextOffers c' q' = Some pc \<and> pc_ok ovf G D (evs @ [?e]) grp' pc"
    proof (cases "q' = q")
      case True
      then have "grp' = grp" using a nospawn by auto
      then show ?thesis using True ok by (simp add: c')
    next
      case False
      then have "GoNextOffer q' grp' keys' \<in> set evs" using a by auto
      from inv_pc_ok [OF i this] show ?thesis
        using False by (auto simp: c' intro: pc_ok_mono)
    qed
  qed
qed

lemma inv_append_other:
  assumes "sys_inv ovf G D evs c" "\<not> starts e"
  shows "sys_inv ovf G D (evs @ [e]) c"
proof (rule invI)
  show "dom (offerBins (neg c)) = D" using assms(1) by (rule inv_dom)
next
  show "maxGroupID (neg c) = G" using assms(1) by (rule inv_G)
next
  fix B qu assume "offerBins (neg c) B = Some qu"
  then show "distinct (map fst qu)" by (rule inv_distinct [OF assms(1)])
next
  fix B qu p off assume "offerBins (neg c) B = Some qu" "(p, off) \<in> set qu"
  then show "regOffers c p = Some (RO_Send B off)" by (rule inv_parked [OF assms(1)])
next
  fix p B off assume "regOffers c p = Some (RO_Send B off)"
  then show "registered ovf G (evs @ [e]) B p off"
    by (intro registered_mono inv_registered [OF assms(1)])
next
  fix p user sdp groups rnd
  assume "GoRegisterOffer p user sdp groups rnd \<in> set (evs @ [e])"
  then have "GoRegisterOffer p user sdp groups rnd \<in> set evs"
    using assms(2) by (auto simp: starts_def)
  then show "regOffers c p \<noteq> None" by (rule inv_spawned_reg [OF assms(1)])
next
  fix q pc assume "nextOffers c q = Some pc"
  then show "\<exists>grp keys. GoNextOffer q grp keys \<in> set (evs @ [e])"
    using inv_has_spawn [OF assms(1)] by fastforce
next
  fix q grp keys assume "GoNextOffer q grp keys \<in> set (evs @ [e])"
  then have "GoNextOffer q grp keys \<in> set evs"
    using assms(2) by (auto simp: starts_def)
  from inv_pc_ok [OF assms(1) this]
  show "\<exists>pc. nextOffers c q = Some pc \<and> pc_ok ovf G D (evs @ [e]) grp pc"
    by (auto intro: pc_ok_mono)
qed

text \<open>A change of the answer table alone does not touch the invariant.\<close>

lemma inv_answers:
  assumes "sys_inv ovf G D evs c"
    and "maxGroupID n' = maxGroupID (neg c)" "offerBins n' = offerBins (neg c)"
  shows "sys_inv ovf G D evs (c\<lparr>neg := n'\<rparr>)"
  using assms unfolding sys_inv_def by simp

lemma inv_Check:
  assumes i: "sys_inv ovf G D evs c" and s: "step ovf (Check q now) c = Some c'"
  shows "sys_inv ovf G D evs c'"
proof -
  from s obtain off bs where at: "nextOffers c q = Some (NO_Check off bs)"
    by (auto split: option.splits nextOffer_pc.splits)
  let ?pc = "nextOffer_check (neg c) now off bs"
  have c': "c' = c\<lparr>nextOffers := (nextOffers c)(q \<mapsto> ?pc)\<rparr>"
    using s at by simp
  have ok: "pc_ok ovf G D evs grp ?pc" if "pc_ok ovf G D evs grp (NO_Check off bs)" for grp
  proof -
    from that obtain b bs' where bs: "bs = b # bs'" by (cases bs) auto
    show ?thesis
      using that unfolding bs nextOffer_check_def
      by (auto split: option.splits)
  qed
  show ?thesis
  proof (rule invI)
    show "dom (offerBins (neg c')) = D"
      using step_dom [OF s] inv_dom [OF i] by simp
  next
    show "maxGroupID (neg c') = G" using inv_G [OF i] by (simp add: c')
  next
    fix B qu assume "offerBins (neg c') B = Some qu"
    then show "distinct (map fst qu)" using inv_distinct [OF i] by (simp add: c')
  next
    fix B qu p off assume "offerBins (neg c') B = Some qu" "(p, off) \<in> set qu"
    then show "regOffers c' p = Some (RO_Send B off)" using inv_parked [OF i] by (simp add: c')
  next
    fix p B off assume "regOffers c' p = Some (RO_Send B off)"
    then show "registered ovf G evs B p off" using inv_registered [OF i] by (simp add: c')
  next
    fix p user sdp groups rnd
    assume "GoRegisterOffer p user sdp groups rnd \<in> set evs"
    then show "regOffers c' p \<noteq> None" using inv_spawned_reg [OF i] by (auto simp: c')
  next
    fix q' pc assume "nextOffers c' q' = Some pc"
    then show "\<exists>grp keys. GoNextOffer q' grp keys \<in> set evs"
      using inv_has_spawn [OF i, of q'] at by (cases "q' = q") (auto simp: c')
  next
    fix q' grp keys assume a: "GoNextOffer q' grp keys \<in> set evs"
    from inv_pc_ok [OF i a] obtain pc where pc: "nextOffers c q' = Some pc" "pc_ok ovf G D evs grp pc"
      by blast
    show "\<exists>pc. nextOffers c' q' = Some pc \<and> pc_ok ovf G D evs grp pc"
    proof (cases "q' = q")
      case True
      then have "pc = NO_Check off bs" using pc(1) at by simp
      then show ?thesis using True ok pc(2) by (simp add: c')
    next
      case False
      then show ?thesis using pc by (simp add: c')
    qed
  qed
qed

lemma inv_Store:
  assumes i: "sys_inv ovf G D evs c" and s: "step ovf (Store p now) c = Some c'"
  shows "sys_inv ovf G D evs c'"
proof -
  from s obtain off where at: "regOffers c p = Some (RO_Store off)"
    by (auto split: option.splits registerOffer_pc.splits)
  have c': "c' = c\<lparr>neg := fst (registerOffer_store (neg c) now off),
                   regOffers := (regOffers c)(p \<mapsto> RO_Ret (Inr (offer_id off)))\<rparr>"
    using s at by (simp add: registerOffer_store_def)
  have bins: "offerBins (neg c') = offerBins (neg c)"
    and G: "maxGroupID (neg c') = maxGroupID (neg c)"
    by (simp_all add: c' registerOffer_store_def)
  have nx: "nextOffers c' = nextOffers c" by (simp add: c')
  have rg: "regOffers c' = (regOffers c)(p \<mapsto> RO_Ret (Inr (offer_id off)))" by (simp add: c')
  show ?thesis
  proof (rule invI)
    show "dom (offerBins (neg c')) = D"
      using step_dom [OF s] inv_dom [OF i] by simp
  next
    show "maxGroupID (neg c') = G" using inv_G [OF i] by (simp add: G)
  next
    fix B qu assume "offerBins (neg c') B = Some qu"
    then show "distinct (map fst qu)" using inv_distinct [OF i] by (simp add: bins)
  next
    fix B qu p' off' assume a: "offerBins (neg c') B = Some qu" "(p', off') \<in> set qu"
    then have "regOffers c p' = Some (RO_Send B off')" using inv_parked [OF i] by (simp add: bins)
    moreover from this have "p' \<noteq> p" using at by auto
    ultimately show "regOffers c' p' = Some (RO_Send B off')" by (simp add: rg)
  next
    fix p' B off' assume "regOffers c' p' = Some (RO_Send B off')"
    then have "regOffers c p' = Some (RO_Send B off')" by (auto simp: rg split: if_splits)
    then show "registered ovf G evs B p' off'" by (rule inv_registered [OF i])
  next
    fix p' user sdp groups rnd
    assume "GoRegisterOffer p' user sdp groups rnd \<in> set evs"
    then show "regOffers c' p' \<noteq> None" using inv_spawned_reg [OF i] by (auto simp: rg)
  next
    fix q pc assume "nextOffers c' q = Some pc"
    then show "\<exists>grp keys. GoNextOffer q grp keys \<in> set evs"
      using inv_has_spawn [OF i] by (simp add: nx)
  next
    fix q grp keys assume "GoNextOffer q grp keys \<in> set evs"
    from inv_pc_ok [OF i this] show "\<exists>pc. nextOffers c' q = Some pc \<and> pc_ok ovf G D evs grp pc"
      by (simp add: nx)
  qed
qed

lemma recv_Some:
  assumes "chan_try_recv n b = Some ((p, off), n')"
  shows "\<exists>qu. offerBins n b = Some ((p, off) # qu) \<and> n' = n\<lparr>offerBins := (offerBins n)(b \<mapsto> qu)\<rparr>"
  using assms by (auto simp: chan_try_recv_def split: option.splits list.splits)

lemma inv_Select:
  assumes i: "sys_inv ovf G D evs c" and s: "step ovf (Select q) c = Some c'"
  shows "sys_inv ovf G D evs c'"
proof -
  from s obtain bs where at: "nextOffers c q = Some (NO_Select bs)"
    by (auto split: option.splits nextOffer_pc.splits)
  from inv_has_spawn [OF i at] obtain grp0 keys0 where sp: "GoNextOffer q grp0 keys0 \<in> set evs"
    by blast
  have okq: "pc_ok ovf G D evs grp (NO_Select bs)" if "GoNextOffer q grp keys \<in> set evs" for grp keys
    using inv_pc_ok [OF i that] at by auto
  consider
    (empty) "bs = []"
  | (default) b bs' where "bs = b # bs'" "chan_try_recv (neg c) b = None"
  | (recv) b bs' p off n' where "bs = b # bs'" "chan_try_recv (neg c) b = Some ((p, off), n')"
    by (cases bs; cases "chan_try_recv (neg c) (hd bs)") auto
  then show ?thesis
  proof cases
    case empty
    have c': "c' = c\<lparr>nextOffers := (nextOffers c)(q \<mapsto> NO_Ret (Inl ErrNoOfferAvailable))\<rparr>"
      using s at empty by simp
    show ?thesis
    proof (rule invI)
      show "dom (offerBins (neg c')) = D"
        using step_dom [OF s] inv_dom [OF i] by simp
    next
      fix q' grp keys assume a: "GoNextOffer q' grp keys \<in> set evs"
      from inv_pc_ok [OF i a] show "\<exists>pc. nextOffers c' q' = Some pc \<and> pc_ok ovf G D evs grp pc"
        by (cases "q' = q") (auto simp: c')
    next
      fix q' pc assume "nextOffers c' q' = Some pc"
      then show "\<exists>grp keys. GoNextOffer q' grp keys \<in> set evs"
        using inv_has_spawn [OF i, of q'] sp by (cases "q' = q") (auto simp: c')
    qed (use i in \<open>auto simp: c' dest: inv_G inv_distinct inv_parked inv_registered inv_spawned_reg\<close>)
  next
    case default
    have c': "c' = c\<lparr>nextOffers := (nextOffers c)(q \<mapsto> NO_Select bs')\<rparr>"
      using s at default by simp
    show ?thesis
    proof (rule invI)
      show "dom (offerBins (neg c')) = D"
        using step_dom [OF s] inv_dom [OF i] by simp
    next
      fix q' grp keys assume a: "GoNextOffer q' grp keys \<in> set evs"
      from inv_pc_ok [OF i a] okq [of grp keys] a
      show "\<exists>pc. nextOffers c' q' = Some pc \<and> pc_ok ovf G D evs grp pc"
        by (cases "q' = q") (auto simp: c' default(1))
    next
      fix q' pc assume "nextOffers c' q' = Some pc"
      then show "\<exists>grp keys. GoNextOffer q' grp keys \<in> set evs"
        using inv_has_spawn [OF i, of q'] sp by (cases "q' = q") (auto simp: c')
    qed (use i in \<open>auto simp: c' dest: inv_G inv_distinct inv_parked inv_registered inv_spawned_reg\<close>)
  next
    case recv
    from recv_Some [OF recv(2)] obtain qu where
      qu: "offerBins (neg c) b = Some ((p, off) # qu)"
      and n': "n' = (neg c)\<lparr>offerBins := (offerBins (neg c))(b \<mapsto> qu)\<rparr>"
      by blast
    have c': "c' = c\<lparr>neg := n', regOffers := (regOffers c)(p \<mapsto> RO_Store off),
                     nextOffers := (nextOffers c)(q \<mapsto> NO_Check off (b # bs'))\<rparr>"
      using s at recv by simp
    have pat: "regOffers c p = Some (RO_Send b off)"
      using inv_parked [OF i qu] by simp
    have reg: "registered ovf G evs b p off"
      using inv_registered [OF i pat] .
    have key: "b \<in> D"
      using qu inv_dom [OF i] by auto
    have d: "distinct (map fst ((p, off) # qu))"
      using inv_distinct [OF i qu] .
    show ?thesis
    proof (rule invI)
      show "dom (offerBins (neg c')) = D"
        using step_dom [OF s] inv_dom [OF i] by simp
    next
      show "maxGroupID (neg c') = G" using inv_G [OF i] by (simp add: c' n')
    next
      fix B qu' assume "offerBins (neg c') B = Some qu'"
      then show "distinct (map fst qu')"
        using inv_distinct [OF i, of B qu'] d by (cases "B = b") (auto simp: c' n')
    next
      fix B qu' p' off' assume a: "offerBins (neg c') B = Some qu'" "(p', off') \<in> set qu'"
      have old: "regOffers c p' = Some (RO_Send B off')"
      proof (cases "B = b")
        case True
        then have "qu' = qu" using a(1) by (simp add: c' n')
        then have "(p', off') \<in> set ((p, off) # qu)" using a(2) by simp
        then show ?thesis using inv_parked [OF i qu] True by blast
      next
        case False
        then have "offerBins (neg c) B = Some qu'" using a(1) by (simp add: c' n')
        then show ?thesis using a(2) by (rule inv_parked [OF i])
      qed
      have "p' \<noteq> p"
      proof
        assume e: "p' = p"
        then have "B = b" using old pat by simp
        then have "qu' = qu" using a(1) by (simp add: c' n')
        then have "p \<in> fst ` set qu" using a(2) e by force
        then show False using d by simp
      qed
      then show "regOffers c' p' = Some (RO_Send B off')" using old by (simp add: c')
    next
      fix p' B off' assume "regOffers c' p' = Some (RO_Send B off')"
      then have "regOffers c p' = Some (RO_Send B off')" by (auto simp: c' split: if_splits)
      then show "registered ovf G evs B p' off'" by (rule inv_registered [OF i])
    next
      fix p' user sdp groups rnd
      assume "GoRegisterOffer p' user sdp groups rnd \<in> set evs"
      then show "regOffers c' p' \<noteq> None" using inv_spawned_reg [OF i] by (auto simp: c')
    next
      fix q' pc assume "nextOffers c' q' = Some pc"
      then show "\<exists>grp keys. GoNextOffer q' grp keys \<in> set evs"
        using inv_has_spawn [OF i, of q'] sp by (cases "q' = q") (auto simp: c')
    next
      fix q' grp keys assume a: "GoNextOffer q' grp keys \<in> set evs"
      show "\<exists>pc. nextOffers c' q' = Some pc \<and> pc_ok ovf G D evs grp pc"
      proof (cases "q' = q")
        case True
        have "pc_ok ovf G D evs grp (NO_Check off (b # bs'))"
          using okq [of grp keys] a True reg key by (auto simp: recv(1))
        then show ?thesis using True by (simp add: c')
      next
        case False
        then show ?thesis using inv_pc_ok [OF i a] by (simp add: c')
      qed
    qed
  qed
qed

lemma inv_step:
  assumes i: "sys_inv ovf G D evs c" and s: "step ovf e c = Some c'"
  shows "sys_inv ovf G D (evs @ [e]) c'"
proof (cases e)
  case (GoRegisterOffer p user sdp groups rnd)
  then show ?thesis using inv_GoRegisterOffer [OF i] s by simp
next
  case (GoNextOffer q grp keys)
  then show ?thesis using inv_GoNextOffer [OF i] s by simp
next
  case (Select q)
  then show ?thesis using inv_Select [OF i] s by (auto intro: inv_append_other simp: starts_def)
next
  case (Check q now)
  then show ?thesis using inv_Check [OF i] s by (auto intro: inv_append_other simp: starts_def)
next
  case (Store p now)
  then show ?thesis using inv_Store [OF i] s by (auto intro: inv_append_other simp: starts_def)
next
  case (RegisterAnswer offerID sdp)
  then have "c' = c\<lparr>neg := snd (registerAnswer (neg c) offerID sdp)\<rparr>" using s by simp
  then have "sys_inv ovf G D evs c'"
    using inv_answers [OF i] registerAnswer_frame by simp
  then show ?thesis using RegisterAnswer by (auto intro: inv_append_other simp: starts_def)
next
  case (LookupAnswer user offerID)
  then have "c' = c" using s by (simp add: lookupAnswer_frame)
  then show ?thesis using i LookupAnswer by (auto intro: inv_append_other simp: starts_def)
next
  case (AutoPurge visits)
  then have "c' = c\<lparr>neg := autoPurge_cycle (neg c) visits\<rparr>" using s by simp
  then have "sys_inv ovf G D evs c'"
    using inv_answers [OF i] by (simp add: autoPurge_cycle_def)
  then show ?thesis using AutoPurge by (auto intro: inv_append_other simp: starts_def)
qed

lemma run_append:
  "run ovf (evs @ evs') c = (case run ovf evs c of None \<Rightarrow> None | Some c' \<Rightarrow> run ovf evs' c')"
  by (induction evs arbitrary: c) (auto split: option.splits)

lemma run_snoc:
  "run ovf (evs @ [e]) c = Some c' \<longleftrightarrow> (\<exists>c1. run ovf evs c = Some c1 \<and> step ovf e c1 = Some c')"
  by (auto simp: run_append split: option.splits)

lemma inv_run:
  assumes "NewNegotiator ovf G0 t = Some n" "run ovf evs (boot n) = Some c"
  shows "sys_inv ovf (maxGroupID n) (dom (offerBins n)) evs c"
  using assms(2)
proof (induction evs arbitrary: c rule: rev_induct)
  case Nil
  then show ?case using inv_boot [OF assms(1)] by simp
next
  case (snoc e evs)
  then obtain c1 where "run ovf evs (boot n) = Some c1" "step ovf e c1 = Some c"
    by (auto simp: run_snoc)
  then show ?case using snoc.IH inv_step by blast
qed

lemmas eval_defs = example_config_def boot_def example_negotiator_def registerOffer_start_def
  pow2_u64_def nextOffer_start_def chan_send_def chan_try_recv_def nextOffer_check_def
  registerOffer_store_def Let_def

section \<open>Bin IDs and masks\<close>

lemma pow2_and_pos:
  "unat e < 64 \<Longrightarrow> (pow2_u64 ovf e AND B > 0) \<longleftrightarrow> B AND 2 ^ unat e \<noteq> 0"
  by (simp add: pow2_u64_def word_greater_zero_iff and.commute [of _ B])

lemma unat_pred:
  fixes g :: u64
  assumes "g \<noteq> 0" "unat g \<le> 64"
  shows "unat (g - 1) < 64" and "unat (g - 1) = unat g - 1"
proof -
  show e: "unat (g - 1) = unat g - 1"
    using assms(1) by (rule unat_minus_one)
  have "unat g \<noteq> 0"
    using assms(1) by (simp add: unat_eq_0)
  then show "unat (g - 1) < 64"
    using e assms(2) by simp
qed

lemma eligible_iff:
  assumes "grp \<noteq> 0" "unat grp \<le> 64"
  shows "eligible ovf grp B \<longleftrightarrow> B AND 2 ^ (unat grp - 1) \<noteq> 0"
  using pow2_and_pos [OF unat_pred(1) [OF assms], of ovf B] unat_pred(2) [OF assms]
  by (simp add: eligible_def)

lemma bit_calcBinID:
  assumes "0 \<notin> set groups" "unat G \<le> 64"
  shows "bit (calcBinID ovf G groups acc) k \<longleftrightarrow>
           bit acc k \<or> (\<exists>g\<in>set groups. g \<le> G \<and> unat g - 1 = k)"
  using assms(1)
proof (induction groups arbitrary: acc)
  case Nil
  then show ?case by simp
next
  case (Cons g groups)
  then have g0: "g \<noteq> 0" and rest: "0 \<notin> set groups" by auto
  show ?case
  proof (cases "g \<le> G")
    case True
    then have "unat g \<le> 64" using assms(2) by (simp add: word_le_nat_alt)
    note p = unat_pred [OF g0 this]
    have "bit (acc OR pow2_u64 ovf (g - 1)) k \<longleftrightarrow> bit acc k \<or> unat g - 1 = k"
      using p by (auto simp: pow2_u64_def bit_or_iff bit_exp_iff)
    then show ?thesis
      using True by (auto simp: Cons.IH [OF rest])
  next
    case False
    then show ?thesis
      by (auto simp: Cons.IH [OF rest])
  qed
qed

lemma calcBinID_routes:
  assumes "0 \<notin> set groups" "unat G \<le> 64" "grp \<noteq> 0"
  shows "calcBinID ovf G groups 0 AND 2 ^ (unat grp - 1) \<noteq> 0 \<longleftrightarrow> grp \<in> set groups \<and> grp \<le> G"
proof -
  have "calcBinID ovf G groups 0 AND 2 ^ (unat grp - 1) \<noteq> 0 \<longleftrightarrow>
        bit (calcBinID ovf G groups 0) (unat grp - 1)"
    by (simp add: and_exp_eq_0_iff_not_bit)
  also have "\<dots> \<longleftrightarrow> (\<exists>g\<in>set groups. g \<le> G \<and> unat g - 1 = unat grp - 1)"
    by (simp add: bit_calcBinID [OF assms(1,2)])
  also have "\<dots> \<longleftrightarrow> grp \<in> set groups \<and> grp \<le> G"
  proof
    assume "\<exists>g\<in>set groups. g \<le> G \<and> unat g - 1 = unat grp - 1"
    then obtain g where g: "g \<in> set groups" "g \<le> G" "unat g - 1 = unat grp - 1" by blast
    have "g \<noteq> 0" using g(1) assms(1) by auto
    then have "unat g \<noteq> 0" "unat grp \<noteq> 0" using assms(3) by (simp_all add: unat_eq_0)
    then have "unat g = unat grp" using g(3) by arith
    then have "g = grp" by (simp add: word_unat_eq_iff)
    then show "grp \<in> set groups \<and> grp \<le> G" using g by simp
  next
    assume "grp \<in> set groups \<and> grp \<le> G"
    then show "\<exists>g\<in>set groups. g \<le> G \<and> unat g - 1 = unat grp - 1" by blast
  qed
  finally show ?thesis .
qed

text \<open>The valid part of the bin computation.\<close>

lemma calcBinID_zero_iff:
  assumes "0 \<notin> set groups" "unat G \<le> 64"
  shows "calcBinID ovf G groups 0 = 0 \<longleftrightarrow> (\<forall>g\<in>set groups. \<not> g \<le> G)"
proof -
  have "calcBinID ovf G groups 0 = 0 \<longleftrightarrow> (\<forall>k. \<not> bit (calcBinID ovf G groups 0) k)"
    using bit_imp_le_length [of "calcBinID ovf G groups 0"] by (auto simp: bit_eq_iff)
  also have "\<dots> \<longleftrightarrow> (\<forall>g\<in>set groups. \<not> g \<le> G)"
    by (auto simp: bit_calcBinID [OF assms])
  finally show ?thesis .
qed

lemma registerOffer_bad_groups:
  assumes "0 \<notin> set groups" "unat (maxGroupID n) \<le> 64"
  shows "registerOffer_start ovf n user sdp groups rnd = RO_Ret (Inl ErrBadGroupID) \<longleftrightarrow>
           (\<forall>g\<in>set groups. \<not> g \<le> maxGroupID n)"
  using calcBinID_zero_iff [OF assms, of ovf]
  by (auto simp: registerOffer_start_def Let_def split: option.splits)

text \<open>
  C5.  Group 0 passes the guard \<^verbatim>\<open>groupID <= n.maxGroupID\<close> and is not dropped: its
  mask is computed from the exponent \<^verbatim>\<open>groupID-1\<close>, which wraps to the largest
  \<^verbatim>\<open>uint64\<close>, so the bin ID of the list \<open>[0]\<close> is whatever the implementation makes
  of the out-of-range conversion.  \<^verbatim>\<open>registerOffer\<close> fails with \<^verbatim>\<open>ErrBadGroupID\<close>
  only where that value is 0, and otherwise goes on to send into the bin of that ID.  With
  the example conversion the call parks in the send of bin \<open>2 ^ 63\<close>, which is no key of
  \<^verbatim>\<open>offerBins\<close>: the \<^verbatim>\<open>nil\<close> channel.
\<close>

theorem registerOffer_group_zero:
  "calcBinID ovf G [0] 0 = ovf (- 1) \<and>
   registerOffer_start ovf n user sdp [0] (Some r) =
     (if ovf (- 1) = 0 then RO_Ret (Inl ErrBadGroupID)
      else RO_Send (ovf (- 1)) \<lparr>offer_id = r, offer_user = user, offer_sdp = sdp\<rparr>) \<and>
   map_option (\<lambda>c. regOffers c 0)
     (run example_ovf [GoRegisterOffer 0 42 (Some [1]) [0] (Some 7)] example_config)
     = Some (Some (RO_Send 0x8000000000000000 example_offer)) \<and>
   offerBins example_negotiator 0x8000000000000000 = None"
  by (simp add: eval_defs example_offer_def example_ovf_def unsigned_minus_1_eq_mask mask_eq_exp_minus_1)

section \<open>The answer row of registerOffer\<close>

text \<open>
  C2, as the code has it.  \<^verbatim>\<open>registerOffer\<close> makes no check that the identifier it drew
  is absent from the table: its path to the send does not read the table, and its store
  writes the new row (body absent, expiry now + TTL, user the offerer) under the
  identifier whatever was there, and returns the identifier.
\<close>

theorem registerOffer_store_overwrites:
  "answers (fst (registerOffer_store n now off)) =
     (answers n)(offer_id off \<mapsto>
        \<lparr>answer_body = None, answer_expiry = now + ttl n, answer_user = offer_user off\<rparr>) \<and>
   snd (registerOffer_store n now off) = RO_Ret (Inr (offer_id off)) \<and>
   registerOffer_start ovf (n\<lparr>answers := m\<rparr>) user sdp groups rnd =
     registerOffer_start ovf n user sdp groups rnd"
  by (simp add: registerOffer_store_def registerOffer_start_def)

section \<open>The staleness check of nextOffer\<close>

text \<open>
  C7.  In every step of a configuration: a check that finds the answer row of the
  received offer absent, or its expiry earlier than the clock reading of the check, puts
  the call back at the \<^verbatim>\<open>select\<close> with the same bins to probe and changes nothing
  else; a call comes to hold an offer only by receiving it from the bin at the head of
  those bins, so the probe goes on in the same bin; and a call returns an offer only from
  a check that found the row present and its expiry not earlier than the clock reading.
\<close>

theorem nextOffer_skips_stale:
  assumes "step ovf ev c = Some c'"
  shows
   "(\<forall>now off binIDs.
       ev = Check q now \<and> nextOffers c q = Some (NO_Check off binIDs) \<and>
       (answers (neg c) (offer_id off) = None \<or>
        (\<exists>a. answers (neg c) (offer_id off) = Some a \<and> answer_expiry a < now)) \<longrightarrow>
       nextOffers c' q = Some (NO_Select binIDs) \<and> neg c' = neg c) \<and>
    (\<forall>off binIDs.
       nextOffers c' q = Some (NO_Check off binIDs) \<and>
       nextOffers c q \<noteq> Some (NO_Check off binIDs) \<longrightarrow>
       (\<exists>p qu. ev = Select q \<and> nextOffers c q = Some (NO_Select binIDs) \<and> binIDs \<noteq> [] \<and>
          offerBins (neg c) (hd binIDs) = Some ((p, off) # qu))) \<and>
    (\<forall>r. nextOffers c' q = Some (NO_Ret (Inr r)) \<and> nextOffers c q \<noteq> Some (NO_Ret (Inr r)) \<longrightarrow>
       (\<exists>now off binIDs a.
          ev = Check q now \<and> nextOffers c q = Some (NO_Check off binIDs) \<and>
          r = (offer_id off, offer_sdp off) \<and>
          answers (neg c) (offer_id off) = Some a \<and> \<not> answer_expiry a < now))"
proof (cases ev)
  case (GoRegisterOffer p user sdp groups rnd)
  then show ?thesis using assms
    by (auto split: if_splits registerOffer_pc.splits)
next
  case (GoNextOffer q' grp keys)
  then show ?thesis using assms
    by (auto simp: nextOffer_start_def Let_def split: if_splits)
next
  case (Select q')
  then show ?thesis using assms
    by (auto simp: chan_try_recv_def split: option.splits nextOffer_pc.splits list.splits if_splits)
next
  case (Check q' now)
  then show ?thesis using assms
    by (auto simp: nextOffer_check_def split: option.splits nextOffer_pc.splits if_splits)
next
  case (Store p now)
  then show ?thesis using assms
    by (auto split: option.splits registerOffer_pc.splits)
next
  case (RegisterAnswer offerID sdp)
  then show ?thesis using assms by auto
next
  case (LookupAnswer user offerID)
  then show ?thesis using assms by auto
next
  case (AutoPurge visits)
  then show ?thesis using assms by auto
qed

theorem nextOffer_skips_stale_witness:
  "step example_ovf (Check 0 5) checking_config
     = Some (checking_config\<lparr>nextOffers := (nextOffers checking_config)(0 \<mapsto> NO_Select [1, 3, 5, 7])\<rparr>) \<and>
   step example_ovf (Check 0 11) (checking_config\<lparr>neg := with_row example_negotiator 7 pending_row\<rparr>)
     = Some (checking_config\<lparr>neg := with_row example_negotiator 7 pending_row,
               nextOffers := (nextOffers checking_config)(0 \<mapsto> NO_Select [1, 3, 5, 7])\<rparr>) \<and>
   step example_ovf (Check 0 5) (checking_config\<lparr>neg := with_row example_negotiator 7 pending_row\<rparr>)
     = Some (checking_config\<lparr>neg := with_row example_negotiator 7 pending_row,
               nextOffers := (nextOffers checking_config)(0 \<mapsto> NO_Ret (Inr (7, Some [1])))\<rparr>)"
proof -
  have absent: "step example_ovf (Check 0 5) checking_config
     = Some (checking_config\<lparr>nextOffers := (nextOffers checking_config)(0 \<mapsto> NO_Select [1, 3, 5, 7])\<rparr>)"
    by (simp add: checking_config_def example_offer_def nextOffer_check_def example_negotiator_def)
  have expired: "step example_ovf (Check 0 11) (checking_config\<lparr>neg := with_row example_negotiator 7 pending_row\<rparr>)
     = Some (checking_config\<lparr>neg := with_row example_negotiator 7 pending_row,
               nextOffers := (nextOffers checking_config)(0 \<mapsto> NO_Select [1, 3, 5, 7])\<rparr>)"
    by (simp add: checking_config_def example_offer_def nextOffer_check_def with_row_def pending_row_def)
  have live: "step example_ovf (Check 0 5) (checking_config\<lparr>neg := with_row example_negotiator 7 pending_row\<rparr>)
     = Some (checking_config\<lparr>neg := with_row example_negotiator 7 pending_row,
               nextOffers := (nextOffers checking_config)(0 \<mapsto> NO_Ret (Inr (7, Some [1])))\<rparr>)"
    by (simp add: checking_config_def example_offer_def nextOffer_check_def with_row_def pending_row_def)
  show ?thesis
    using absent expired live
      nextOffer_skips_stale [OF absent, of 0]
      nextOffer_skips_stale [OF expired, of 0]
      nextOffer_skips_stale [OF live, of 0]
    by simp
qed

section \<open>The order of send and store in registerOffer\<close>

text \<open>
  C1.  A run of one \<^verbatim>\<open>registerOffer\<close> and one \<^verbatim>\<open>nextOffer\<close> on the fresh
  Negotiator.  When the receiver has taken the offer and the send has returned, the answer
  table has no row for the offer: the row is stored only afterwards.  If the receiver's
  check comes first it finds no row and drops the offer, and \<^verbatim>\<open>nextOffer\<close> returns
  \<^verbatim>\<open>ErrNoOfferAvailable\<close> while \<^verbatim>\<open>registerOffer\<close> returns the offer ID.
\<close>

theorem registerOffer_row_after_handoff:
  "map_option (\<lambda>c. (regOffers c 0, nextOffers c 0, answers (neg c) 7))
     (run example_ovf
        [GoRegisterOffer 0 42 (Some [1]) [1] (Some 7),
         GoNextOffer 0 1 [1, 2, 3, 4, 5, 6, 7],
         Select 0] example_config)
   = Some (Some (RO_Store example_offer), Some (NO_Check example_offer [1, 3, 5, 7]), None) \<and>
   map_option (\<lambda>c. (regOffers c 0, nextOffers c 0, answers (neg c) 7))
     (run example_ovf
        [GoRegisterOffer 0 42 (Some [1]) [1] (Some 7),
         GoNextOffer 0 1 [1, 2, 3, 4, 5, 6, 7],
         Select 0, Check 0 5, Select 0, Select 0, Select 0, Select 0, Select 0,
         Store 0 6] example_config)
   = Some (Some (RO_Ret (Inr 7)),
           Some (NO_Ret (Inl ErrNoOfferAvailable)),
           Some \<lparr>answer_body = None, answer_expiry = 16, answer_user = 42\<rparr>)"
  by (simp add: eval_defs example_offer_def)

section \<open>Identifier collisions\<close>

text \<open>
  C2, as stated, fails.  The table holds a live row under the identifier 7, owned by user
  42 and with its body present.  A \<^verbatim>\<open>registerOffer\<close> of user 43 that draws 7 runs to
  its end and returns 7, and the row is now a fresh one of user 43 with no body.
\<close>

theorem registerOffer_overwrites_live_row:
  "answers (with_row example_negotiator 7 answered_row) 7 = Some answered_row \<and>
   \<not> answer_expiry answered_row < 5 \<and>
   registerOffer_start example_ovf (with_row example_negotiator 7 answered_row) 43 (Some [2]) [1] (Some 7)
     = RO_Send 1 \<lparr>offer_id = 7, offer_user = 43, offer_sdp = Some [2]\<rparr> \<and>
   snd (registerOffer_store (with_row example_negotiator 7 answered_row) 5
          \<lparr>offer_id = 7, offer_user = 43, offer_sdp = Some [2]\<rparr>) = RO_Ret (Inr 7) \<and>
   answers (fst (registerOffer_store (with_row example_negotiator 7 answered_row) 5
          \<lparr>offer_id = 7, offer_user = 43, offer_sdp = Some [2]\<rparr>)) 7
     = Some \<lparr>answer_body = None, answer_expiry = 15, answer_user = 43\<rparr>"
  by (simp add: eval_defs with_row_def answered_row_def)

section \<open>Routing by group\<close>

text \<open>A call at the select whose bins are all empty runs through them and returns.\<close>

lemma drained:
  assumes "nextOffers c q = Some (NO_Select bs)"
    and "\<forall>b\<in>set bs. offerBins (neg c) b = Some []"
  shows "run ovf (replicate (Suc (length bs)) (Select q)) c =
           Some (c\<lparr>nextOffers := (nextOffers c)(q \<mapsto> NO_Ret (Inl ErrNoOfferAvailable))\<rparr>)"
  using assms
proof (induction bs arbitrary: c)
  case Nil
  then show ?case by (simp add: fun_upd_def)
next
  case (Cons b bs)
  let ?c1 = "c\<lparr>nextOffers := (nextOffers c)(q \<mapsto> NO_Select bs)\<rparr>"
  have s: "step ovf (Select q) c = Some ?c1"
    using Cons.prems by (simp add: chan_try_recv_def)
  have rest: "run ovf (replicate (Suc (length bs)) (Select q)) ?c1 =
          Some (?c1\<lparr>nextOffers := (nextOffers ?c1)(q \<mapsto> NO_Ret (Inl ErrNoOfferAvailable))\<rparr>)"
    using Cons.prems by (intro Cons.IH) simp_all
  have same: "?c1\<lparr>nextOffers := (nextOffers ?c1)(q \<mapsto> NO_Ret (Inl ErrNoOfferAvailable))\<rparr> =
          c\<lparr>nextOffers := (nextOffers c)(q \<mapsto> NO_Ret (Inl ErrNoOfferAvailable))\<rparr>"
    by simp
  have "run ovf (replicate (Suc (length (b # bs))) (Select q)) c =
          run ovf (replicate (Suc (length bs)) (Select q)) ?c1"
    by (simp only: length_Cons replicate_Suc run.simps s option.case)
  then show ?case by (simp only: rest same)
qed

text \<open>
  A list with group 0 puts the bits of the out-of-range conversion into the bin ID.  The
  bins of a Negotiator made for at most 63 groups have bit 63 clear.
\<close>

lemma calcBinID_keeps_bits:
  "bit acc k \<Longrightarrow> bit (calcBinID ovf G groups acc) k"
  by (induction groups arbitrary: acc) (auto simp: bit_or_iff)

lemma calcBinID_group_zero_bits:
  assumes "0 \<in> set groups" "bit (ovf (- 1)) k"
  shows "bit (calcBinID ovf G groups acc) k"
  using assms(1)
proof (induction groups arbitrary: acc)
  case Nil
  then show ?case by simp
next
  case (Cons g groups)
  show ?case
  proof (cases "g = 0")
    case True
    have "pow2_u64 ovf (0 - 1) = ovf (- 1)"
      by (simp add: pow2_u64_def unsigned_minus_1_eq_mask mask_eq_exp_minus_1)
    then have "bit (acc OR pow2_u64 ovf (g - 1)) k"
      using True assms(2) by (simp add: bit_or_iff)
    then show ?thesis
      using True by (simp add: calcBinID_keeps_bits)
  next
    case False
    then have "0 \<in> set groups" using Cons.prems by auto
    then show ?thesis by (simp add: Cons.IH)
  qed
qed

lemma NewNegotiator_keys:
  assumes "NewNegotiator ovf G0 t = Some n" "0 \<le> G0" "G0 \<le> 63" "offerBins n B \<noteq> None"
  shows "\<not> bit B 63" and "unat (maxGroupID n) \<le> 64"
proof -
  have u: "unat (word_of_int G0 :: u64) = nat G0"
    using assms(2,3) by (simp add: unat_eq_nat_uint uint_word_of_int take_bit_int_eq_self)
  have lt: "nat G0 < 64"
    using assms(2,3) by arith
  have p: "pow2_u64 ovf (word_of_int G0) = 2 ^ nat G0"
    using u lt by (simp add: pow2_u64_def)
  have "B \<le> 2 ^ nat G0 - 1"
    using assms(1,2,4) p by (auto simp: NewNegotiator_def Let_def split: if_splits)
  then have "B \<le> mask (nat G0)"
    by (simp add: mask_eq_exp_minus_1)
  then have "uint B \<le> uint (mask (nat G0) :: u64)"
    by (simp add: word_le_def)
  also have "uint (mask (nat G0) :: u64) = 2 ^ nat G0 - 1"
    unfolding uint_mask_eq using lt by (simp add: mask_eq_exp_minus_1 min_def)
  finally have "uint B < 2 ^ nat G0"
    by simp
  then have "B AND mask (nat G0) = B"
    by (simp add: mask_eq_iff)
  then have "bit B 63 \<longleftrightarrow> bit (B AND mask (nat G0)) 63"
    by simp
  also have "\<dots> \<longleftrightarrow> False"
    using lt by (simp add: bit_and_iff bit_mask_iff)
  finally show "\<not> bit B 63" by simp
  have "maxGroupID n = word_of_int G0"
    using assms(1) by (auto simp: NewNegotiator_def Let_def split: if_splits)
  then show "unat (maxGroupID n) \<le> 64"
    using u lt by simp
qed

text \<open>
  C6.  In a run from a fresh Negotiator, take a call of \<^verbatim>\<open>nextOffer\<close> for a group
  \<open>grp\<close> from 1 to 64.  The bins it sets out to probe are the keys of \<^verbatim>\<open>offerBins\<close>
  whose AND with \<open>2 ^ (grp - 1)\<close> is not 0: exactly the bins with that bit set.  At every
  later point the bins it still has to probe, and the bin it holds an offer from, are
  among them.  If it has returned an offer, then some \<^verbatim>\<open>registerOffer\<close> call of the run
  was made with that SDP and drew that identifier, the bin ID computed from its group list
  is a key of \<^verbatim>\<open>offerBins\<close> and has the bit of \<open>grp\<close> set, and \<open>grp\<close> is in that
  list.  The last is shown where every mask in the list is exact (no group 0, a maximum
  group ID of at most 64), and also for any list where the Negotiator was made for at
  most 63 groups and the out-of-range conversion sets bit 63: then a bin ID made with
  group 0 is no key of \<^verbatim>\<open>offerBins\<close>, and its offer is never received.  If it stands at a
  \<^verbatim>\<open>select\<close> and all bins it still has to probe are empty, then running it alone
  ends in \<^verbatim>\<open>ErrNoOfferAvailable\<close>.
\<close>

theorem nextOffer_routing:
  assumes new: "NewNegotiator ovf G0 t = Some n"
    and run: "run ovf evs (boot n) = Some c"
    and call: "GoNextOffer q grp keys \<in> set evs"
    and grp: "grp \<noteq> 0" "unat grp \<le> 64"
  shows
   "nextOffer_start ovf grp keys = NO_Select (filter (\<lambda>B. B AND 2 ^ (unat grp - 1) \<noteq> 0) keys) \<and>
    (range_order keys (offerBins (neg c)) \<longrightarrow>
       set (filter (\<lambda>B. B AND 2 ^ (unat grp - 1) \<noteq> 0) keys) =
         {B. offerBins n B \<noteq> None \<and> B AND 2 ^ (unat grp - 1) \<noteq> 0}) \<and>
    (\<forall>bs. nextOffers c q = Some (NO_Select bs) \<longrightarrow>
       (\<forall>b\<in>set bs. b AND 2 ^ (unat grp - 1) \<noteq> 0)) \<and>
    (\<forall>off bs. nextOffers c q = Some (NO_Check off bs) \<longrightarrow>
       (\<forall>b\<in>set bs. b AND 2 ^ (unat grp - 1) \<noteq> 0)) \<and>
    (\<forall>offerID sdp. nextOffers c q = Some (NO_Ret (Inr (offerID, sdp))) \<longrightarrow>
       (\<exists>p user groups.
          GoRegisterOffer p user sdp groups (Some offerID) \<in> set evs \<and>
          offerBins n (calcBinID ovf (maxGroupID n) groups 0) \<noteq> None \<and>
          calcBinID ovf (maxGroupID n) groups 0 AND 2 ^ (unat grp - 1) \<noteq> 0 \<and>
          (0 \<notin> set groups \<and> unat (maxGroupID n) \<le> 64 \<or>
           0 \<le> G0 \<and> G0 \<le> 63 \<and> bit (ovf (- 1)) 63 \<longrightarrow> grp \<in> set groups))) \<and>
    (\<forall>bs. nextOffers c q = Some (NO_Select bs) \<and> (\<forall>b\<in>set bs. offerBins (neg c) b = Some []) \<longrightarrow>
       run ovf (replicate (Suc (length bs)) (Select q)) c =
         Some (c\<lparr>nextOffers := (nextOffers c)(q \<mapsto> NO_Ret (Inl ErrNoOfferAvailable))\<rparr>))"
proof -
  note el = eligible_iff [OF grp, of ovf]
  have i: "sys_inv ovf (maxGroupID n) (dom (offerBins n)) evs c"
    using inv_run [OF new run] .
  from inv_pc_ok [OF i call] obtain pc where
    pc: "nextOffers c q = Some pc" "pc_ok ovf (maxGroupID n) (dom (offerBins n)) evs grp pc"
    by blast
  have a: "nextOffer_start ovf grp keys = NO_Select (filter (\<lambda>B. B AND 2 ^ (unat grp - 1) \<noteq> 0) keys)"
    using el by (simp add: nextOffer_start_def eligible_def)
  have d: "dom (offerBins (neg c)) = dom (offerBins n)"
    using run_dom [OF run] by (simp add: boot_def)
  have b: "set (filter (\<lambda>B. B AND 2 ^ (unat grp - 1) \<noteq> 0) keys) =
         {B. offerBins n B \<noteq> None \<and> B AND 2 ^ (unat grp - 1) \<noteq> 0}"
    if "range_order keys (offerBins (neg c))"
  proof -
    from that have "set keys = dom (offerBins n)" using d by (simp add: range_order_def)
    then show ?thesis by (auto simp: dom_def)
  qed
  have s: "\<forall>b\<in>set bs. b AND 2 ^ (unat grp - 1) \<noteq> 0" if "nextOffers c q = Some (NO_Select bs)" for bs
    using that pc el by auto
  have k: "\<forall>b\<in>set bs. b AND 2 ^ (unat grp - 1) \<noteq> 0" if "nextOffers c q = Some (NO_Check off bs)" for off bs
    using that pc el by auto
  have r: "\<exists>p user groups.
          GoRegisterOffer p user sdp groups (Some offerID) \<in> set evs \<and>
          offerBins n (calcBinID ovf (maxGroupID n) groups 0) \<noteq> None \<and>
          calcBinID ovf (maxGroupID n) groups 0 AND 2 ^ (unat grp - 1) \<noteq> 0 \<and>
          (0 \<notin> set groups \<and> unat (maxGroupID n) \<le> 64 \<or>
           0 \<le> G0 \<and> G0 \<le> 63 \<and> bit (ovf (- 1)) 63 \<longrightarrow> grp \<in> set groups)"
    if "nextOffers c q = Some (NO_Ret (Inr (offerID, sdp)))" for offerID sdp
  proof -
    from that pc obtain B p off where
      B: "eligible ovf grp B" "registered ovf (maxGroupID n) evs B p off"
        "offerID = offer_id off" "sdp = offer_sdp off" and key: "offerBins n B \<noteq> None"
      by auto
    from B(2) obtain groups where
      g: "GoRegisterOffer p (offer_user off) (offer_sdp off) groups (Some (offer_id off)) \<in> set evs"
        "calcBinID ovf (maxGroupID n) groups 0 = B"
      unfolding registered_def by blast
    have m: "calcBinID ovf (maxGroupID n) groups 0 AND 2 ^ (unat grp - 1) \<noteq> 0"
      using B(1) g(2) el by simp
    have plain: "grp \<in> set groups" if "0 \<notin> set groups" "unat (maxGroupID n) \<le> 64"
      using calcBinID_routes [OF that grp(1), of ovf] m by simp
    have top: "grp \<in> set groups" if "0 \<le> G0" "G0 \<le> 63" "bit (ovf (- 1)) 63"
    proof -
      note k = NewNegotiator_keys [OF new that(1,2) key]
      have "0 \<notin> set groups"
      proof
        assume z: "0 \<in> set groups"
        have "bit (calcBinID ovf (maxGroupID n) groups 0) 63"
          using z that(3) by (rule calcBinID_group_zero_bits)
        then have "bit B 63"
          using g(2) by simp
        then show False using k(1) by simp
      qed
      then show ?thesis using plain k(2) by simp
    qed
    have "offerBins n (calcBinID ovf (maxGroupID n) groups 0) \<noteq> None"
      using key g(2) by simp
    then show ?thesis using g(1) m B(3,4) plain top by blast
  qed
  show ?thesis
    using a b s k r drained by blast
qed

theorem nextOffer_routing_witness:
  "NewNegotiator example_ovf 3 10 = Some example_negotiator \<and>
   map_option (\<lambda>c. nextOffers c 0)
     (run example_ovf
        [GoRegisterOffer 0 42 (Some [1]) [1, 2] (Some 7),
         GoNextOffer 0 2 [1, 2, 3, 4, 5, 6, 7],
         Select 0, Select 0, Store 0 5, Check 0 6] (boot example_negotiator))
     = Some (Some (NO_Ret (Inr (7, Some [1])))) \<and>
   nextOffer_start example_ovf 2 [1, 2, 3, 4, 5, 6, 7] = NO_Select [2, 3, 6, 7] \<and>
   (\<exists>p user groups.
      GoRegisterOffer p user (Some [1]) groups (Some 7) \<in>
        set [GoRegisterOffer 0 42 (Some [1]) [1, 2] (Some 7),
             GoNextOffer 0 2 [1, 2, 3, 4, 5, 6, 7],
             Select 0, Select 0, Store 0 5, Check 0 6] \<and>
      (2 :: u64) \<in> set groups)"
proof -
  let ?evs = "[GoRegisterOffer 0 42 (Some [1]) [1, 2] (Some 7),
               GoNextOffer 0 2 [1, 2, 3, 4, 5, 6, 7],
               Select 0, Select 0, Store 0 5, Check 0 6]"
  have new: "NewNegotiator example_ovf 3 10 = Some example_negotiator"
    by (rule NewNegotiator_example)
  have ev: "map_option (\<lambda>c. nextOffers c 0) (run example_ovf ?evs (boot example_negotiator))
     = Some (Some (NO_Ret (Inr (7, Some [1]))))"
    by (simp add: eval_defs)
  then obtain c where c: "run example_ovf ?evs (boot example_negotiator) = Some c"
    and ret: "nextOffers c 0 = Some (NO_Ret (Inr (7, Some [1])))"
    by auto
  have call: "GoNextOffer 0 2 [1, 2, 3, 4, 5, 6, 7] \<in> set ?evs"
    by simp
  have grp: "(2 :: u64) \<noteq> 0" "unat (2 :: u64) \<le> 64"
    by simp_all
  note routing = nextOffer_routing [OF new c call grp]
  have start: "nextOffer_start example_ovf 2 [1, 2, 3, 4, 5, 6, 7] = NO_Select [2, 3, 6, 7]"
    using routing by simp
  have G: "unat (maxGroupID example_negotiator) \<le> 64"
    by (simp add: example_negotiator_def)
  from routing ret obtain p user groups where
    g: "GoRegisterOffer p user (Some [1]) groups (Some 7) \<in> set ?evs"
      "0 \<notin> set groups \<and> unat (maxGroupID example_negotiator) \<le> 64 \<or>
       0 \<le> (3 :: int) \<and> (3 :: int) \<le> 63 \<and> bit (example_ovf (- 1)) 63 \<longrightarrow> 2 \<in> set groups"
    by blast
  from g(1) have "groups = [1, 2]" by simp
  then have "0 \<notin> set groups" by simp
  then have "2 \<in> set groups" using g(2) G by blast
  then show ?thesis using new ev start g(1) by blast
qed

section \<open>The blocking send of registerOffer\<close>

lemma start_maxGroupID:
  "maxGroupID n' = maxGroupID n \<Longrightarrow>
   registerOffer_start ovf n' user sdp groups rnd = registerOffer_start ovf n user sdp groups rnd"
  by (simp add: registerOffer_start_def)

text \<open>What one step can do to a goroutine parked in the send.\<close>

lemma parked_step:
  assumes i: "sys_inv ovf G D evs c" and s: "step ovf ev c = Some c'"
    and at: "regOffers c p = Some (RO_Send B off)"
  shows "regOffers c' p = Some (RO_Send B off) \<or>
         (\<exists>q bs grp keys. ev = Select q \<and> GoNextOffer q grp keys \<in> set evs \<and> eligible ovf grp B \<and>
            nextOffers c q = Some (NO_Select (B # bs)) \<and>
            nextOffers c' q = Some (NO_Check off (B # bs)) \<and>
            regOffers c' p = Some (RO_Store off))"
proof (cases ev)
  case (GoRegisterOffer p' user sdp groups rnd)
  then show ?thesis using s at
    by (auto split: if_splits registerOffer_pc.splits)
next
  case (GoNextOffer q grp keys)
  then show ?thesis using s at by (auto split: if_splits)
next
  case (Select q)
  from s Select obtain bs where atq: "nextOffers c q = Some (NO_Select bs)"
    by (auto split: option.splits nextOffer_pc.splits)
  consider
    (empty) "bs = []"
  | (default) b bs' where "bs = b # bs'" "chan_try_recv (neg c) b = None"
  | (recv) b bs' p' off' n' where "bs = b # bs'" "chan_try_recv (neg c) b = Some ((p', off'), n')"
    by (cases bs; cases "chan_try_recv (neg c) (hd bs)") auto
  then show ?thesis
  proof cases
    case empty
    then show ?thesis using s Select atq at by auto
  next
    case default
    then show ?thesis using s Select atq at by auto
  next
    case recv
    from recv_Some [OF recv(2)] obtain qu where
      qu: "offerBins (neg c) b = Some ((p', off') # qu)"
      by blast
    have c': "c' = c\<lparr>neg := n', regOffers := (regOffers c)(p' \<mapsto> RO_Store off'),
                     nextOffers := (nextOffers c)(q \<mapsto> NO_Check off' (b # bs'))\<rparr>"
      using s Select atq recv by simp
    show ?thesis
    proof (cases "p' = p")
      case False
      then show ?thesis using at by (simp add: c')
    next
      case True
      have "regOffers c p' = Some (RO_Send b off')"
        using inv_parked [OF i qu] by simp
      then have e: "b = B" "off' = off" using True at by simp_all
      from inv_has_spawn [OF i atq] obtain grp keys where sp: "GoNextOffer q grp keys \<in> set evs"
        by blast
      from inv_pc_ok [OF i sp] atq have "eligible ovf grp B"
        by (auto simp: recv(1) e)
      then show ?thesis
        using Select sp atq True e by (auto simp: c' recv(1))
    qed
  qed
next
  case (Check q now)
  then show ?thesis using s at by (auto split: option.splits nextOffer_pc.splits)
next
  case (Store p' now)
  then show ?thesis using s at by (auto split: option.splits registerOffer_pc.splits)
next
  case (RegisterAnswer offerID sdp)
  then show ?thesis using s at by auto
next
  case (LookupAnswer user offerID)
  then show ?thesis using s at by auto
next
  case (AutoPurge visits)
  then show ?thesis using s at by auto
qed

text \<open>The only ways into the store and into the successful return.\<close>

lemma into_Store:
  assumes s: "step ovf ev c = Some c'"
    and to: "regOffers c' p = Some (RO_Store off)" and frm: "regOffers c p \<noteq> Some (RO_Store off)"
  shows "\<exists>q. ev = Select q"
proof (cases ev)
  case (GoRegisterOffer p' user sdp groups rnd)
  then show ?thesis using s to frm
    by (auto simp: start_not_Store split: if_splits registerOffer_pc.splits)
next
  case (Store p' now)
  then show ?thesis using s to frm
    by (auto simp: registerOffer_store_def split: option.splits registerOffer_pc.splits if_splits)
qed (use s to frm in \<open>auto split: if_splits option.splits nextOffer_pc.splits\<close>)

lemma start_not_success: "registerOffer_start ovf n user sdp groups rnd \<noteq> RO_Ret (Inr r)"
  by (auto simp: registerOffer_start_def Let_def split: option.splits)

lemma into_success:
  assumes s: "step ovf ev c = Some c'"
    and to: "regOffers c' p = Some (RO_Ret (Inr r))" and frm: "regOffers c p \<noteq> Some (RO_Ret (Inr r))"
  shows "\<exists>now off. ev = Store p now \<and> regOffers c p = Some (RO_Store off) \<and> offer_id off = r"
proof (cases ev)
  case (GoRegisterOffer p' user sdp groups rnd)
  then show ?thesis using s to frm
    by (auto simp: start_not_success split: if_splits registerOffer_pc.splits)
next
  case (Select q)
  then show ?thesis using s to frm
    by (auto simp: chan_try_recv_def split: option.splits nextOffer_pc.splits list.splits if_splits)
next
  case (Store p' now)
  then show ?thesis using s to frm
    by (auto simp: registerOffer_store_def split: option.splits registerOffer_pc.splits if_splits)
qed (use s to frm in \<open>auto split: if_splits option.splits nextOffer_pc.splits\<close>)

text \<open>Without a call of nextOffer for a group of the bin, the sender stays parked.\<close>

lemma stays_parked:
  assumes new: "NewNegotiator ovf G0 t = Some n"
    and run: "run ovf evs (boot n) = Some c"
    and call: "GoRegisterOffer p user sdp groups rnd \<in> set evs"
    and send: "registerOffer_start ovf n user sdp groups rnd = RO_Send B off"
    and none: "\<forall>q grp keys. GoNextOffer q grp keys \<in> set evs \<longrightarrow> \<not> eligible ovf grp B"
  shows "regOffers c p = Some (RO_Send B off)"
  using run call none
proof (induction evs arbitrary: c rule: rev_induct)
  case Nil
  then show ?case by simp
next
  case (snoc e evs)
  from snoc.prems(1) obtain c1 where c1: "run ovf evs (boot n) = Some c1" "step ovf e c1 = Some c"
    by (auto simp: run_snoc)
  have i: "sys_inv ovf (maxGroupID n) (dom (offerBins n)) evs c1"
    using inv_run [OF new c1(1)] .
  have none': "\<forall>q grp keys. GoNextOffer q grp keys \<in> set evs \<longrightarrow> \<not> eligible ovf grp B"
    using snoc.prems(3) by simp
  show ?case
  proof (cases "GoRegisterOffer p user sdp groups rnd \<in> set evs")
    case True
    have "regOffers c1 p = Some (RO_Send B off)"
      using snoc.IH [OF c1(1) True none'] .
    from parked_step [OF i c1(2) this] none' show ?thesis by blast
  next
    case False
    then have e: "e = GoRegisterOffer p user sdp groups rnd"
      using snoc.prems(2) by simp
    have fresh: "regOffers c1 p = None"
      using c1(2) unfolding e by (simp split: if_splits)
    have "registerOffer_start ovf (neg c1) user sdp groups rnd = RO_Send B off"
      using send inv_G [OF i] start_maxGroupID [of "neg c1" n] by simp
    then show ?thesis
      using c1(2) fresh unfolding e by auto
  qed
qed

text \<open>
  C9.  In a run from a fresh Negotiator: a \<^verbatim>\<open>registerOffer\<close> call parked in the send
  of bin \<open>B\<close> stays parked through every step, except a \<^verbatim>\<open>select\<close> of a
  \<^verbatim>\<open>nextOffer\<close> call that was made for a group whose mask selects \<open>B\<close>, stood at
  bin \<open>B\<close> and took this very offer; a call gets past the send only by such a step, and
  returns an offer ID only by its store after that.  If the run has no \<^verbatim>\<open>nextOffer\<close>
  call for a group whose mask selects \<open>B\<close>, the call is still parked at its end.
\<close>

theorem registerOffer_blocks:
  assumes new: "NewNegotiator ovf G0 t = Some n"
    and run: "run ovf evs (boot n) = Some c"
  shows
   "(\<forall>ev c' B off.
       step ovf ev c = Some c' \<and> regOffers c p = Some (RO_Send B off) \<longrightarrow>
       regOffers c' p = Some (RO_Send B off) \<or>
       (\<exists>q bs grp keys. ev = Select q \<and> GoNextOffer q grp keys \<in> set evs \<and> eligible ovf grp B \<and>
          nextOffers c q = Some (NO_Select (B # bs)) \<and>
          nextOffers c' q = Some (NO_Check off (B # bs)) \<and>
          regOffers c' p = Some (RO_Store off))) \<and>
    (\<forall>ev c' off.
       step ovf ev c = Some c' \<and> regOffers c' p = Some (RO_Store off) \<and>
       regOffers c p \<noteq> Some (RO_Store off) \<longrightarrow> (\<exists>q. ev = Select q)) \<and>
    (\<forall>ev c' r.
       step ovf ev c = Some c' \<and> regOffers c' p = Some (RO_Ret (Inr r)) \<and>
       regOffers c p \<noteq> Some (RO_Ret (Inr r)) \<longrightarrow>
       (\<exists>now off. ev = Store p now \<and> regOffers c p = Some (RO_Store off) \<and> offer_id off = r)) \<and>
    (\<forall>user sdp groups rnd B off.
       GoRegisterOffer p user sdp groups rnd \<in> set evs \<and>
       registerOffer_start ovf n user sdp groups rnd = RO_Send B off \<and>
       (\<forall>q grp keys. GoNextOffer q grp keys \<in> set evs \<longrightarrow> \<not> eligible ovf grp B) \<longrightarrow>
       regOffers c p = Some (RO_Send B off))"
proof -
  have i: "sys_inv ovf (maxGroupID n) (dom (offerBins n)) evs c"
    using inv_run [OF new run] .
  show ?thesis
  proof (intro conjI allI impI)
    fix ev c' B off
    assume "step ovf ev c = Some c' \<and> regOffers c p = Some (RO_Send B off)"
    then show "regOffers c' p = Some (RO_Send B off) \<or>
       (\<exists>q bs grp keys. ev = Select q \<and> GoNextOffer q grp keys \<in> set evs \<and> eligible ovf grp B \<and>
          nextOffers c q = Some (NO_Select (B # bs)) \<and>
          nextOffers c' q = Some (NO_Check off (B # bs)) \<and>
          regOffers c' p = Some (RO_Store off))"
      using parked_step [OF i] by blast
  next
    fix ev c' off
    assume "step ovf ev c = Some c' \<and> regOffers c' p = Some (RO_Store off) \<and>
       regOffers c p \<noteq> Some (RO_Store off)"
    then show "\<exists>q. ev = Select q"
      using into_Store by blast
  next
    fix ev c' r
    assume "step ovf ev c = Some c' \<and> regOffers c' p = Some (RO_Ret (Inr r)) \<and>
       regOffers c p \<noteq> Some (RO_Ret (Inr r))"
    then show "\<exists>now off. ev = Store p now \<and> regOffers c p = Some (RO_Store off) \<and> offer_id off = r"
      using into_success by blast
  next
    fix user sdp groups rnd B off
    assume "GoRegisterOffer p user sdp groups rnd \<in> set evs \<and>
       registerOffer_start ovf n user sdp groups rnd = RO_Send B off \<and>
       (\<forall>q grp keys. GoNextOffer q grp keys \<in> set evs \<longrightarrow> \<not> eligible ovf grp B)"
    then show "regOffers c p = Some (RO_Send B off)"
      using stays_parked [OF new run] by blast
  qed
qed

theorem registerOffer_blocks_witness:
  "NewNegotiator example_ovf 3 10 = Some example_negotiator \<and>
   (\<exists>c. run example_ovf
          [GoRegisterOffer 0 42 (Some [1]) [1] (Some 7),
           GoNextOffer 0 2 [1, 2, 3, 4, 5, 6, 7],
           Select 0, Select 0, Select 0, Select 0, Select 0,
           AutoPurge []] (boot example_negotiator) = Some c \<and>
        regOffers c 0 = Some (RO_Send 1 example_offer) \<and>
        nextOffers c 0 = Some (NO_Ret (Inl ErrNoOfferAvailable))) \<and>
   (\<exists>c c'. run example_ovf
          [GoRegisterOffer 0 42 (Some [1]) [1] (Some 7),
           GoNextOffer 0 1 [1, 2, 3, 4, 5, 6, 7]] (boot example_negotiator) = Some c \<and>
        step example_ovf (Select 0) c = Some c' \<and>
        regOffers c 0 = Some (RO_Send 1 example_offer) \<and>
        regOffers c' 0 = Some (RO_Store example_offer) \<and>
        nextOffers c' 0 = Some (NO_Check example_offer [1, 3, 5, 7]) \<and>
        eligible example_ovf 1 1)"
proof -
  let ?call = "GoRegisterOffer 0 42 (Some [1]) [1] (Some 7)"
  let ?idle = "[?call, GoNextOffer 0 2 [1, 2, 3, 4, 5, 6, 7],
                Select 0, Select 0, Select 0, Select 0, Select 0, AutoPurge []]"
  let ?met = "[?call, GoNextOffer 0 1 [1, 2, 3, 4, 5, 6, 7]]"
  have new: "NewNegotiator example_ovf 3 10 = Some example_negotiator"
    by (rule NewNegotiator_example)
  have send: "registerOffer_start example_ovf example_negotiator 42 (Some [1]) [1] (Some 7)
                = RO_Send 1 example_offer"
    by (simp add: eval_defs example_offer_def)
  \<comment> \<open>no call of nextOffer for a group of bin 1\<close>
  have "map_option (\<lambda>c. nextOffers c 0) (run example_ovf ?idle (boot example_negotiator))
          = Some (Some (NO_Ret (Inl ErrNoOfferAvailable)))"
    by (simp add: eval_defs autoPurge_cycle_def)
  then obtain c1 where c1: "run example_ovf ?idle (boot example_negotiator) = Some c1"
    and ret: "nextOffers c1 0 = Some (NO_Ret (Inl ErrNoOfferAvailable))"
    by auto
  have called: "?call \<in> set ?idle"
    by simp
  have none: "\<forall>q grp keys. GoNextOffer q grp keys \<in> set ?idle \<longrightarrow> \<not> eligible example_ovf grp 1"
    by (simp add: eligible_def pow2_u64_def)
  have parked: "regOffers c1 0 = Some (RO_Send 1 example_offer)"
    using registerOffer_blocks [OF new c1, of 0] called send none by blast
  \<comment> \<open>a call of nextOffer for group 1 takes the offer\<close>
  have "map_option (\<lambda>c. (regOffers c 0, nextOffers c 0)) (run example_ovf ?met (boot example_negotiator))
          = Some (Some (RO_Send 1 example_offer), Some (NO_Select [1, 3, 5, 7]))"
    by (simp add: eval_defs example_offer_def)
  then obtain c2 where c2: "run example_ovf ?met (boot example_negotiator) = Some c2"
    and at: "regOffers c2 0 = Some (RO_Send 1 example_offer)"
    and atq: "nextOffers c2 0 = Some (NO_Select [1, 3, 5, 7])"
    by auto
  have "map_option (\<lambda>c. regOffers c 0) (run example_ovf (?met @ [Select 0]) (boot example_negotiator))
          = Some (Some (RO_Store example_offer))"
    by (simp add: eval_defs example_offer_def)
  then obtain c3 where c3: "step example_ovf (Select 0) c2 = Some c3"
    and moved: "regOffers c3 0 = Some (RO_Store example_offer)"
    using c2 by (auto simp: run_append split: option.splits)
  have "regOffers c3 0 = Some (RO_Send 1 example_offer) \<or>
       (\<exists>q bs grp keys. Select 0 = Select q \<and> GoNextOffer q grp keys \<in> set ?met \<and>
          eligible example_ovf grp 1 \<and>
          nextOffers c2 q = Some (NO_Select (1 # bs)) \<and>
          nextOffers c3 q = Some (NO_Check example_offer (1 # bs)) \<and>
          regOffers c3 0 = Some (RO_Store example_offer))"
    by (rule registerOffer_blocks [OF new c2, of 0, THEN conjunct1, rule_format,
          OF conjI [OF c3 at]])
  then obtain q bs grp keys where
    w: "Select 0 = Select q" "GoNextOffer q grp keys \<in> set ?met" "eligible example_ovf grp 1"
      "nextOffers c3 q = Some (NO_Check example_offer (1 # bs))" "nextOffers c2 q = Some (NO_Select (1 # bs))"
    using moved by auto
  from w(1,2) have "q = 0" "grp = 1" by simp_all
  moreover from this w(5) atq have "bs = [3, 5, 7]" by simp
  ultimately have "nextOffers c3 0 = Some (NO_Check example_offer [1, 3, 5, 7])" "eligible example_ovf 1 1"
    using w(3,4) by simp_all
  then show ?thesis
    using new c1 parked ret c2 c3 at moved by blast
qed
section \<open>At most one answer for a row\<close>

lemma purge_row:
  "purge visits m k = Some a \<Longrightarrow> m k = Some a"
  by (simp add: purge_lookup split: option.splits if_splits)

text \<open>A row whose body is present, through one step.\<close>

lemma answered_row_step:
  assumes row: "answers (neg c) offerID = Some a" and body: "answer_body a \<noteq> None"
    and s: "step ovf ev c = Some c'"
  shows "answers (neg c') offerID = Some a \<or>
         (answers (neg c') offerID = None \<and> (\<exists>visits. ev = AutoPurge visits)) \<or>
         (\<exists>p now off. ev = Store p now \<and> regOffers c p = Some (RO_Store off) \<and> offer_id off = offerID)"
proof (cases ev)
  case (GoRegisterOffer p user sdp groups rnd)
  then show ?thesis using s row
    by (auto simp: chan_send_def split: if_splits registerOffer_pc.splits option.splits)
next
  case (GoNextOffer q grp keys)
  then show ?thesis using s row by (auto split: if_splits)
next
  case (Select q)
  then show ?thesis using s row
    by (auto simp: chan_try_recv_def split: option.splits nextOffer_pc.splits list.splits if_splits)
next
  case (Check q now)
  then show ?thesis using s row by (auto split: option.splits nextOffer_pc.splits)
next
  case (Store p now)
  then show ?thesis using s row
    by (auto simp: registerOffer_store_def split: option.splits registerOffer_pc.splits)
next
  case (RegisterAnswer offerID' sdp)
  then show ?thesis using s row body
    by (auto simp: registerAnswer_def split: option.splits if_splits)
next
  case (LookupAnswer user offerID')
  then show ?thesis using s row by (auto simp: lookupAnswer_frame)
next
  case (AutoPurge visits)
  then have c': "answers (neg c') offerID = purge visits (answers (neg c)) offerID"
    using s by (auto simp: autoPurge_cycle_def)
  show ?thesis
  proof (cases "answers (neg c') offerID")
    case None
    then show ?thesis using AutoPurge by simp
  next
    case (Some a')
    then have "answers (neg c) offerID = Some a'" using c' purge_row by metis
    then show ?thesis using Some row by simp
  qed
qed

text \<open>
  C3, as the code has it.  \<^verbatim>\<open>registerAnswer\<close> fails with \<^verbatim>\<open>ErrInvalidOfferID\<close> when
  the table has no row for the offer ID and with \<^verbatim>\<open>ErrAnswerRepeated\<close> when the row's
  body is present; otherwise it sets the body to the SDP it was given, returns success,
  and leaves the expiry as it was.  A row whose body is present stays as it is through
  every step of a configuration, except that a sweeper cycle can remove it and the store
  of a \<^verbatim>\<open>registerOffer\<close> call that drew the same identifier can replace it; so while the
  row is in the table every further \<^verbatim>\<open>registerAnswer\<close> for it fails with
  \<^verbatim>\<open>ErrAnswerRepeated\<close>.
\<close>

theorem registerAnswer_once_per_row:
  "(answers n offerID = None \<longrightarrow> registerAnswer n offerID sdp = (Some ErrInvalidOfferID, n)) \<and>
   (\<forall>a. answers n offerID = Some a \<and> answer_body a \<noteq> None \<longrightarrow>
        registerAnswer n offerID sdp = (Some ErrAnswerRepeated, n)) \<and>
   (\<forall>a. answers n offerID = Some a \<and> answer_body a = None \<longrightarrow>
        registerAnswer n offerID sdp =
          (None, n\<lparr>answers := (answers n)(offerID \<mapsto> a\<lparr>answer_body := sdp\<rparr>)\<rparr>) \<and>
        answer_expiry (a\<lparr>answer_body := sdp\<rparr>) = answer_expiry a) \<and>
   (\<forall>a ev c c'. answers (neg c) offerID = Some a \<and> answer_body a \<noteq> None \<and>
        step ovf ev c = Some c' \<longrightarrow>
        answers (neg c') offerID = Some a \<or>
        (answers (neg c') offerID = None \<and> (\<exists>visits. ev = AutoPurge visits)) \<or>
        (\<exists>p now off. ev = Store p now \<and> regOffers c p = Some (RO_Store off) \<and>
           offer_id off = offerID))"
proof (intro conjI allI impI)
  fix a ev c c'
  assume "answers (neg c) offerID = Some a \<and> answer_body a \<noteq> None \<and> step ovf ev c = Some c'"
  then show "answers (neg c') offerID = Some a \<or>
        (answers (neg c') offerID = None \<and> (\<exists>visits. ev = AutoPurge visits)) \<or>
        (\<exists>p now off. ev = Store p now \<and> regOffers c p = Some (RO_Store off) \<and>
           offer_id off = offerID)"
    using answered_row_step by blast
qed (auto simp: registerAnswer_def)

theorem registerAnswer_once_per_row_witness:
  "registerAnswer example_negotiator 7 (Some [0xAA]) = (Some ErrInvalidOfferID, example_negotiator) \<and>
   registerAnswer (with_row example_negotiator 7 pending_row) 7 (Some [0xAA])
     = (None, with_row example_negotiator 7 answered_row) \<and>
   registerAnswer (with_row example_negotiator 7 answered_row) 7 (Some [0xBB])
     = (Some ErrAnswerRepeated, with_row example_negotiator 7 answered_row) \<and>
   answers (neg (boot (with_row example_negotiator 7 answered_row))) 7 = Some answered_row \<and>
   step example_ovf (RegisterAnswer 7 (Some [0xBB])) (boot (with_row example_negotiator 7 answered_row))
     = Some (boot (with_row example_negotiator 7 answered_row)) \<and>
   step example_ovf (AutoPurge [(7, 11)]) (boot (with_row example_negotiator 7 answered_row))
     = Some (boot example_negotiator)"
proof -
  let ?n = "with_row example_negotiator 7 answered_row"
  have none: "answers example_negotiator 7 = None"
    by (simp add: example_negotiator_def)
  have pend: "answers (with_row example_negotiator 7 pending_row) 7 = Some pending_row \<and>
      answer_body pending_row = None"
    by (simp add: with_row_def pending_row_def)
  have ans: "answers ?n 7 = Some answered_row \<and> answer_body answered_row \<noteq> None"
    by (simp add: with_row_def answered_row_def)
  have set_body: "(with_row example_negotiator 7 pending_row)
      \<lparr>answers := (answers (with_row example_negotiator 7 pending_row))
         (7 \<mapsto> pending_row\<lparr>answer_body := Some [0xAA]\<rparr>)\<rparr> = ?n"
    by (simp add: with_row_def pending_row_def answered_row_def)
  have again: "step example_ovf (RegisterAnswer 7 (Some [0xBB])) (boot ?n) = Some (boot ?n)"
    by (simp add: boot_def registerAnswer_def with_row_def answered_row_def)
  have swept: "step example_ovf (AutoPurge [(7, 11)]) (boot ?n) = Some (boot example_negotiator)"
    by (simp add: boot_def autoPurge_cycle_def with_row_def answered_row_def example_negotiator_def)
  have held: "answers (neg (boot ?n)) 7 = Some answered_row \<and> answer_body answered_row \<noteq> None \<and>
      step example_ovf (RegisterAnswer 7 (Some [0xBB])) (boot ?n) = Some (boot ?n)"
    using ans again by (simp add: boot_def)
  note once = registerAnswer_once_per_row [of _ 7 _ example_ovf]
  have "registerAnswer example_negotiator 7 (Some [0xAA]) = (Some ErrInvalidOfferID, example_negotiator)"
    using once [of example_negotiator "Some [0xAA]"] none by blast
  moreover have "registerAnswer (with_row example_negotiator 7 pending_row) 7 (Some [0xAA]) = (None, ?n)"
    using once [of "with_row example_negotiator 7 pending_row" "Some [0xAA]"] pend set_body by metis
  moreover have "registerAnswer ?n 7 (Some [0xBB]) = (Some ErrAnswerRepeated, ?n)"
    using once [of ?n "Some [0xBB]"] ans by blast
  ultimately show ?thesis
    using held again swept by simp
qed

text \<open>
  C3, as stated, fails.  With a \<^verbatim>\<open>nil\<close> SDP the first \<^verbatim>\<open>registerAnswer\<close> succeeds
  and so does the next one: two calls succeed for one offer ID.  And after a successful
  \<^verbatim>\<open>registerAnswer\<close> and a sweeper cycle past the expiry, the next attempt fails with
  \<^verbatim>\<open>ErrInvalidOfferID\<close>, not with \<^verbatim>\<open>ErrAnswerRepeated\<close>.
\<close>

theorem registerAnswer_not_once:
  "fst (registerAnswer (with_row example_negotiator 7 pending_row) 7 None) = None \<and>
   fst (registerAnswer
         (snd (registerAnswer (with_row example_negotiator 7 pending_row) 7 None))
         7 (Some [0xBB])) = None \<and>
   fst (registerAnswer (with_row example_negotiator 7 pending_row) 7 (Some [0xAA])) = None \<and>
   fst (registerAnswer
         (autoPurge_cycle
            (snd (registerAnswer (with_row example_negotiator 7 pending_row) 7 (Some [0xAA])))
            [(7, 11)])
         7 (Some [0xBB])) = Some ErrInvalidOfferID"
  by (simp add: registerAnswer_def autoPurge_cycle_def with_row_def example_negotiator_def pending_row_def)

end
